theory Spec2Isabelle
  imports Main "HOL-Library.Sublist"
begin

section \<open>JavaScript string operations used by the chat page\<close>

text \<open>
  The page script (the template with \<open>submitQuery\<close>, \<open>updateAuditTrail\<close> and
  \<open>displayQueries\<close>) works on JavaScript strings. A string is modelled as a list of
  characters; a \<^typ>\<open>char\<close> stands for one code unit below 256, so the model covers
  the texts whose code units are all in that range.
\<close>

text \<open>
  \<open>String.prototype.trim\<close> removes white space and line terminators from both ends.
  Of the code units below 256 these are TAB, LF, VT, FF, CR, SPACE and NBSP.
\<close>

definition is_ws :: "char \<Rightarrow> bool" where
  "is_ws c = (c = CHR 0x09 \<or> c = CHR 0x0A \<or> c = CHR 0x0B \<or> c = CHR 0x0C \<or> c = CHR 0x0D
              \<or> c = CHR 0x20 \<or> c = CHR 0xA0)"

definition trim :: "string \<Rightarrow> string" where
  "trim s = rev (dropWhile is_ws (rev (dropWhile is_ws s)))"

text \<open>\<open>s.includes(pat)\<close>: \<open>pat\<close> occurs somewhere in \<open>s\<close>.\<close>

fun includes_str :: "string \<Rightarrow> string \<Rightarrow> bool" where
  "includes_str [] pat = (pat = [])"
| "includes_str (c # cs) pat = (prefix pat (c # cs) \<or> includes_str cs pat)"

text \<open>
  \<open>s.split(sep)\<close> for a string separator: the pieces between the occurrences of
  \<open>sep\<close>, found from left to right without overlap. The empty separator splits
  into single code units.
\<close>

function js_split :: "string \<Rightarrow> string \<Rightarrow> string list" where
  "js_split sep s =
     (if sep = [] then map (\<lambda>c. [c]) s
      else if s = [] then [[]]
      else if prefix sep s then [] # js_split sep (drop (length sep) s)
      else (case js_split sep (tl s) of
              [] \<Rightarrow> [[hd s]]
            | seg # segs \<Rightarrow> (hd s # seg) # segs))"
  by pat_completeness auto
termination
  by (relation "measure (\<lambda>(sep, s). length s)") auto

declare js_split.simps [simp del]

text \<open>
  \<open>s.replace(new RegExp(escaped, 'g'), rep)\<close> where \<open>escaped\<close> is \<open>pat\<close> with every
  regular-expression metacharacter escaped, so that the expression matches \<open>pat\<close>
  literally, and \<open>rep\<close> holds no \<open>$\<close>. The global replace tries a match at the current
  position; after a match it continues behind it, and after an empty match it copies
  one code unit and continues behind that; without a match it copies one code unit.
\<close>

function replace_all :: "string \<Rightarrow> string \<Rightarrow> string \<Rightarrow> string" where
  "replace_all pat rep s =
     (if pat = [] then
        (case s of [] \<Rightarrow> rep | c # cs \<Rightarrow> rep @ c # replace_all pat rep cs)
      else if s = [] then []
      else if prefix pat s then rep @ replace_all pat rep (drop (length pat) s)
      else hd s # replace_all pat rep (tl s))"
  by pat_completeness auto
termination
  by (relation "measure (\<lambda>(pat, rep, s). length s)") auto

declare replace_all.simps [simp del]

text \<open>Template interpolation of a number, \<open>${index + 1}\<close>: its decimal digits.\<close>

definition digit_char :: "nat \<Rightarrow> char" where
  "digit_char d = ''0123456789'' ! d"

fun string_of_nat :: "nat \<Rightarrow> string" where
  "string_of_nat n =
     (if n < 10 then [digit_char n]
      else string_of_nat (n div 10) @ [digit_char (n mod 10)])"

declare string_of_nat.simps [simp del]

section \<open>Citation markers in the answer (\<open>submitQuery\<close>, the response handler)\<close>

text \<open>
  The document titles of the graph context: the lines that contain \<open>Found in:\<close>, of
  each the trimmed piece behind the first \<open>Found in:\<close>, and of equal titles the first
  only (\<open>self.indexOf(doc) === index\<close>). A line that contains \<open>Found in:\<close> splits
  into two pieces at least (\<open>js_split_second\<close> below), so the piece of index 1 is
  there for every line that passes the filter.
\<close>

definition found_in :: string where
  "found_in = ''Found in:''"

fun indexOf :: "'a list \<Rightarrow> 'a \<Rightarrow> nat" where
  "indexOf [] x = 0"
| "indexOf (y # ys) x = (if y = x then 0 else Suc (indexOf ys x))"

definition first_occurrences :: "'a list \<Rightarrow> 'a list" where
  "first_occurrences self =
     map fst (filter (\<lambda>(doc, index). indexOf self doc = index) (zip self [0 ..< length self]))"

definition context_titles :: "string \<Rightarrow> string list" where
  "context_titles graph_context =
     map (\<lambda>line. trim (js_split found_in line ! 1))
       (filter (\<lambda>line. includes_str line found_in) (js_split [CHR 0x0A] graph_context))"

definition context_docs :: "string \<Rightarrow> string list" where
  "context_docs graph_context = first_occurrences (context_titles graph_context)"

text \<open>
  The marker \<open>[k]\<close> put into the answer and the line \<open>k. title\<close> of the reference list.
\<close>

definition marker :: "nat \<Rightarrow> string" where
  "marker k = ''['' @ string_of_nat k @ '']''"

definition reference :: "nat \<Rightarrow> string \<Rightarrow> string" where
  "reference k doc = string_of_nat k @ ''. '' @ doc"

text \<open>
  \<open>docRefs\<close> is a \<open>Set\<close>: it keeps its elements in insertion order, and adding an
  element it already has changes nothing.
\<close>

definition set_add :: "'a list \<Rightarrow> 'a \<Rightarrow> 'a list" where
  "set_add s x = (if x \<in> set s then s else s @ [x])"

text \<open>
  The body of \<open>docs.forEach((doc, index) => ...)\<close> on the pair
  \<open>(processedResponse, docRefs)\<close>, and the loop from index \<open>index\<close> on.
\<close>

definition cite_step :: "string \<times> string list \<Rightarrow> string \<Rightarrow> nat \<Rightarrow> string \<times> string list" where
  "cite_step acc doc index =
     (replace_all doc (marker (index + 1)) (fst acc),
      set_add (snd acc) (reference (index + 1) doc))"

fun cite_loop :: "string list \<Rightarrow> nat \<Rightarrow> string \<times> string list \<Rightarrow> string \<times> string list" where
  "cite_loop [] index acc = acc"
| "cite_loop (doc # docs) index acc = cite_loop docs (Suc index) (cite_step acc doc index)"

text \<open>
  The body of the response to \<open>POST /query\<close> is a JSON object. The response handler
  reads these properties of it; each is a string or an object of the shape given here,
  or absent (\<open>None\<close>, which also stands for \<open>null\<close>). A condition \<open>if (x)\<close> on a
  property that is a string holds when the string is present and not empty.

  \<open>graph_context\<close> is read in three places and none checks that it is a string, so it
  is any JSON value, told apart as far as the page can: a string, the value \<open>false\<close>,
  the number zero, or any other value (\<open>true\<close>, another number, an array, an object),
  which is truthy and carries the text that \<open>String\<close> gives for it.
\<close>

datatype js_value = JString string | JFalse | JZero | JTruthy string

record focus =
  main_noun :: "string option"
  root_verb :: "string option"

record semantic_data =
  focus :: "focus option"

record queries =
  graph_context :: "js_value option"
  semantic_data :: "semantic_data option"

record technical_details =
  queries :: "queries option"

record server_data =
  error :: "string option"
  response :: "string option"
  technical_details :: "technical_details option"

fun truthy :: "string option \<Rightarrow> bool" where
  "truthy None = False"
| "truthy (Some s) = (s \<noteq> [])"

fun truthy_value :: "js_value option \<Rightarrow> bool" where
  "truthy_value None = False"
| "truthy_value (Some (JString s)) = (s \<noteq> [])"
| "truthy_value (Some JFalse) = False"
| "truthy_value (Some JZero) = False"
| "truthy_value (Some (JTruthy text)) = True"

text \<open>The text a template shows for a value, \<open>${value}\<close>.\<close>

fun js_text :: "js_value \<Rightarrow> string" where
  "js_text (JString s) = s"
| "js_text JFalse = ''false''"
| "js_text JZero = ''0''"
| "js_text (JTruthy text) = text"

definition queries_of :: "server_data \<Rightarrow> queries option" where
  "queries_of d = (case technical_details d of None \<Rightarrow> None | Some t \<Rightarrow> queries t)"

definition graph_context_of :: "server_data \<Rightarrow> js_value option" where
  "graph_context_of d = (case queries_of d of None \<Rightarrow> None | Some q \<Rightarrow> graph_context q)"

text \<open>
  A callback either completes or throws an \<open>Error\<close> with a message. Calling
  \<open>replace\<close> on a response that is absent, or \<open>split\<close> or \<open>match\<close> on a graph context
  that is not a string, throws a \<open>TypeError\<close>; its message is the engine's (here V8's).
\<close>

datatype completion = Normal | Throw string

definition replace_of_undefined :: string where
  "replace_of_undefined =
     ''Cannot read properties of undefined (reading '' @ [CHR 0x27] @ ''replace''
       @ [CHR 0x27] @ '')''"

definition split_not_a_function :: string where
  "split_not_a_function =
     ''data.technical_details.queries.graph_context.split is not a function''"

definition match_not_a_function :: string where
  "match_not_a_function = ''graphContext?.match is not a function''"

text \<open>
  Lines 268 to 285 of the handler: \<open>processedResponse\<close> and \<open>docRefs\<close> from the body.
\<close>

definition add_references :: "server_data \<Rightarrow> string + string option \<times> string list" where
  "add_references d =
     (if truthy_value (graph_context_of d) then
        (case the (graph_context_of d) of
           JString g \<Rightarrow>
             (case context_docs g of
                [] \<Rightarrow> Inr (response d, [])
              | doc # docs \<Rightarrow>
                  (case response d of
                     None \<Rightarrow> Inl replace_of_undefined
                   | Some r \<Rightarrow>
                       (let (processedResponse, docRefs) = cite_loop (doc # docs) 0 (r, [])
                        in Inr (Some processedResponse, docRefs))))
         | _ \<Rightarrow> Inl split_not_a_function)
      else Inr (response d, []))"

section \<open>The audit trail's document list (\<open>updateAuditTrail\<close>)\<close>

text \<open>
  \<open>graphContext.match(/- ([^-\n]+\.txt)/g)\<close>. At a position the expression needs
  \<open>- \<close>, then gives the class \<open>[^-\n]+\<close> the longest run it can take and gives code
  units back one at a time, down to one, until \<open>.txt\<close> follows. The global match
  collects the matched texts from left to right, continuing behind each match.
\<close>

definition name_char :: "char \<Rightarrow> bool" where
  "name_char c = (c \<noteq> CHR ''-'' \<and> c \<noteq> CHR 0x0A)"

fun backtrack :: "string \<Rightarrow> nat \<Rightarrow> nat option" where
  "backtrack rest 0 = None"
| "backtrack rest (Suc k) =
     (if prefix ''.txt'' (drop (Suc k) rest) then Some (Suc k) else backtrack rest k)"

definition match_at :: "string \<Rightarrow> string option" where
  "match_at s =
     (if prefix ''- '' s then
        (case backtrack (drop 2 s) (length (takeWhile name_char (drop 2 s))) of
           None \<Rightarrow> None
         | Some k \<Rightarrow> Some (take (2 + k + 4) s))
      else None)"

function match_all :: "string \<Rightarrow> string list" where
  "match_all s =
     (if s = [] then []
      else (case match_at s of
              Some m \<Rightarrow> m # match_all (drop (length m) s)
            | None \<Rightarrow> match_all (tl s)))"
  by pat_completeness auto
termination
  by (relation "measure length")
     (auto simp: match_at_def neq_Nil_conv split: if_splits option.splits)

declare match_all.simps [simp del]

text \<open>
  \<open>graphContext?.match(...)?.map(d => d.slice(2)) || []\<close>: without a graph context,
  and without a match, the list is empty; on a graph context that is not a string the
  call of \<open>match\<close> throws.
\<close>

definition matched_docs :: "string \<Rightarrow> string list" where
  "matched_docs g = map (drop 2) (match_all g)"

fun audit_docs :: "js_value option \<Rightarrow> string + string list" where
  "audit_docs None = Inr []"
| "audit_docs (Some (JString g)) = Inr (matched_docs g)"
| "audit_docs (Some v) = Inl match_not_a_function"

section \<open>The page and its handlers\<close>

text \<open>
  The page holds the input field, the chat history, the query panel and the audit trail.
  The chat history and the audit trail are filled with \<open>container.innerHTML += html\<close>:
  the markup of the container is read, \<open>html\<close> is put behind it, and the browser parses
  the whole text anew; what the container holds afterwards is the markup of what was
  parsed. A container is represented by its markup, and the browser's parsing followed
  by serialising is the parameter \<open>reparse\<close> of every handler that writes. The texts put
  into the templates are not escaped.

  The query panel is filled with \<open>cypherQueries.innerHTML = html\<close>, which replaces its
  content; the panel is represented by the blocks assigned. \<open>requests\<close> records the
  query texts sent with \<open>fetch('/query', ...)\<close>.
\<close>

definition append_html :: "(string \<Rightarrow> string) \<Rightarrow> string \<Rightarrow> string \<Rightarrow> string" where
  "append_html reparse container html = reparse (container @ html)"

datatype panel_block =
    NoQueriesAlert
  | GraphContextBlock string
  | QueryAnalysisBlock semantic_data

record page =
  queryInput :: string
  chatHistory :: string
  cypherQueries :: "panel_block list"
  auditTrail :: string
  requests :: "string list"

text \<open>
  The templates, with their line breaks and indentation. \<open>Array.prototype.join\<close> puts
  the separator between the elements. The page icon of the document list lies outside
  the code units of the model and is written as the four bytes of its UTF-8 form.
\<close>

fun join :: "string \<Rightarrow> string list \<Rightarrow> string" where
  "join sep [] = []"
| "join sep [x] = x"
| "join sep (x # y # ys) = x @ sep @ join sep (y # ys)"

definition shown_text :: "string option \<Rightarrow> string" where
  "shown_text t = (case t of None \<Rightarrow> ''undefined'' | Some s \<Rightarrow> s)"

definition page_icon :: string where
  "page_icon = [CHR 0xF0, CHR 0x9F, CHR 0x93, CHR 0x84]"

definition user_html :: "string \<Rightarrow> string" where
  \<open>user_html queryText =
     ''\<newline>'' @
     ''            <div class="chat-message user-message mb-2">\<newline>'' @
     ''                <strong>You:</strong> '' @
     queryText @
     ''\<newline>'' @
     ''            </div>\<newline>'' @
     ''        ''\<close>

definition references_html :: "string list \<Rightarrow> string" where
  \<open>references_html docRefs =
     (if docRefs \<noteq> [] then
        ''\<newline>'' @
        ''                    <div class="document-references mt-2">\<newline>'' @
        ''                        <small class="text-muted">References:<br>'' @
        join ''<br>'' docRefs @
        ''</small>\<newline>'' @
        ''                    </div>''
      else [])\<close>

definition bot_html :: "string option \<Rightarrow> string list \<Rightarrow> string" where
  \<open>bot_html processedResponse docRefs =
     ''\<newline>'' @
     ''                <div class="chat-message bot-message mb-2">\<newline>'' @
     ''                    <strong>Assistant:</strong> '' @
     shown_text processedResponse @
     ''\<newline>'' @
     ''                    '' @
     references_html docRefs @
     ''\<newline>'' @
     ''                </div>\<newline>'' @
     ''            ''\<close>

definition error_html :: "string \<Rightarrow> string" where
  \<open>error_html message =
     ''\<newline>'' @
     ''                <div class="chat-message error-message mb-2">\<newline>'' @
     ''                    <strong>Error:</strong> '' @
     message @
     ''\<newline>'' @
     ''                </div>\<newline>'' @
     ''            ''\<close>

definition error_entry_html :: "string \<Rightarrow> string \<Rightarrow> string \<Rightarrow> string" where
  \<open>error_entry_html timestamp queryText message =
     ''\<newline>'' @
     ''                <div class="audit-entry error mb-2">\<newline>'' @
     ''                    <small class="text-muted">'' @
     timestamp @
     ''</small>\<newline>'' @
     ''                    <div>Query: "'' @
     queryText @
     ''"</div>\<newline>'' @
     ''                    <div>Error: '' @
     message @
     ''</div>\<newline>'' @
     ''                </div>\<newline>'' @
     ''            ''\<close>

definition docs_html :: "string list \<Rightarrow> string" where
  \<open>docs_html docs =
     (if docs \<noteq> [] then
        ''\<newline>'' @
        ''                    <div class="referenced-docs mt-2">\<newline>'' @
        ''                        <strong>Referenced Documents:</strong>\<newline>'' @
        ''                        <ul class="list-unstyled">\<newline>'' @
        ''                            '' @
        concat (map (\<lambda>doc. ''<li>'' @ page_icon @ '' '' @ doc @ ''</li>'') docs) @
        ''\<newline>'' @
        ''                        </ul>\<newline>'' @
        ''                    </div>\<newline>'' @
        ''                ''
      else [])\<close>

definition focus_html :: "semantic_data option \<Rightarrow> string" where
  \<open>focus_html sem =
     (case sem of
        None \<Rightarrow> []
      | Some sd \<Rightarrow>
          ''\<newline>'' @
          ''                    <div class="semantic-focus mt-2">\<newline>'' @
          ''                        <strong>Query Focus:</strong>\<newline>'' @
          ''                        <ul class="list-unstyled">\<newline>'' @
          ''                            '' @
          (case focus sd of
             None \<Rightarrow> []
           | Some f \<Rightarrow>
               (if truthy (main_noun f)
                then ''<li>Main Topic: '' @ the (main_noun f) @ ''</li>'' else [])) @
          ''\<newline>'' @
          ''                            '' @
          (case focus sd of
             None \<Rightarrow> []
           | Some f \<Rightarrow>
               (if truthy (root_verb f)
                then ''<li>Action: '' @ the (root_verb f) @ ''</li>'' else [])) @
          ''\<newline>'' @
          ''                        </ul>\<newline>'' @
          ''                    </div>\<newline>'' @
          ''                '')\<close>

definition resource_html ::
  "string \<Rightarrow> string \<Rightarrow> string list \<Rightarrow> semantic_data option \<Rightarrow> string" where
  \<open>resource_html timestamp queryText docs sem =
     ''\<newline>'' @
     ''            <div class="resource-entry mb-3">\<newline>'' @
     ''                <div class="resource-header">\<newline>'' @
     ''                    <small class="text-muted">'' @
     timestamp @
     ''</small>\<newline>'' @
     ''                    <div class="query-text">Query: "'' @
     queryText @
     ''"</div>\<newline>'' @
     ''                </div>\<newline>'' @
     ''                '' @
     docs_html docs @
     ''\<newline>'' @
     ''                '' @
     focus_html sem @
     ''\<newline>'' @
     ''            </div>\<newline>'' @
     ''        ''\<close>

text \<open>
  \<open>updateAuditTrail(queryText, data)\<close>; \<open>now\<close> is \<open>formatDate(new Date())\<close>. The entry
  shows the documents when there are any, and the query focus when the body has
  \<open>semantic_data\<close>: the main topic and the action, each when present and not empty.
  When the document list throws, nothing is written.
\<close>

definition updateAuditTrail ::
  "(string \<Rightarrow> string) \<Rightarrow> string \<Rightarrow> string \<Rightarrow> server_data \<Rightarrow> page \<Rightarrow> completion \<times> page" where
  "updateAuditTrail reparse now queryText d st =
     (let timestamp = now;
          qs = queries_of d;
          graphContext = (case qs of None \<Rightarrow> None | Some q \<Rightarrow> graph_context q)
      in case audit_docs graphContext of
           Inl message \<Rightarrow> (Throw message, st)
         | Inr docs \<Rightarrow>
             (let sem = (case qs of None \<Rightarrow> None | Some q \<Rightarrow> semantic_data q);
                  resourceHTML = resource_html timestamp queryText docs sem
              in (Normal, st\<lparr>auditTrail := append_html reparse (auditTrail st) resourceHTML\<rparr>)))"

text \<open>\<open>displayQueries(data)\<close> replaces the content of the query panel.\<close>

definition displayQueries :: "server_data \<Rightarrow> page \<Rightarrow> page" where
  "displayQueries d st =
     (case queries_of d of
        None \<Rightarrow> st\<lparr>cypherQueries := [NoQueriesAlert]\<rparr>
      | Some q \<Rightarrow>
          (let queryContent =
                 (if truthy_value (graph_context q)
                  then [GraphContextBlock (js_text (the (graph_context q)))] else [])
                 @ (case semantic_data q of None \<Rightarrow> [] | Some sd \<Rightarrow> [QueryAnalysisBlock sd])
           in st\<lparr>cypherQueries := (if queryContent = [] then [NoQueriesAlert] else queryContent)\<rparr>))"

text \<open>
  The handler of the parsed body (the second \<open>then\<close> of \<open>submitQuery\<close>). An absent
  response is shown as the text \<open>undefined\<close>. An error thrown by \<open>updateAuditTrail\<close>
  leaves the handler after the answer has been shown.
\<close>

definition on_data ::
  "(string \<Rightarrow> string) \<Rightarrow> string \<Rightarrow> string \<Rightarrow> server_data \<Rightarrow> page \<Rightarrow> completion \<times> page" where
  "on_data reparse now queryText d st =
     (if truthy (error d) then (Throw (the (error d)), st)
      else
        (let st1 = st\<lparr>queryInput := []\<rparr> in
         case add_references d of
           Inl message \<Rightarrow> (Throw message, st1)
         | Inr (processedResponse, docRefs) \<Rightarrow>
             (let st2 = st1\<lparr>chatHistory :=
                          append_html reparse (chatHistory st1) (bot_html processedResponse docRefs)\<rparr>;
                  st3 = displayQueries d st2
              in case updateAuditTrail reparse now queryText d st3 of
                   (Throw message, st4) \<Rightarrow> (Throw message, st4)
                 | (Normal, st4) \<Rightarrow> (Normal, st4\<lparr>queryInput := []\<rparr>))))"

text \<open>The \<open>catch\<close> handler: the error goes to the chat and to the audit trail.\<close>

definition on_error :: "(string \<Rightarrow> string) \<Rightarrow> string \<Rightarrow> string \<Rightarrow> string \<Rightarrow> page \<Rightarrow> page" where
  "on_error reparse now queryText message st =
     st\<lparr>chatHistory := append_html reparse (chatHistory st) (error_html message),
        auditTrail := append_html reparse (auditTrail st) (error_entry_html now queryText message)\<rparr>"

text \<open>
  What \<open>fetch\<close> and \<open>response.json()\<close> settle with: the request is rejected, or a
  response arrives with a status and a body that parses or does not.
\<close>

datatype body = InvalidJson string | JsonData server_data

datatype fetch_outcome = Rejected string | Response nat body

definition response_ok :: "nat \<Rightarrow> bool" where
  "response_ok status = (200 \<le> status \<and> status \<le> 299)"

text \<open>
  \<open>fetch\<close> and the first \<open>then\<close>: a response that is not ok throws, otherwise the
  body is parsed. The result is the message of the error or the parsed body.
\<close>

definition parse_response :: "fetch_outcome \<Rightarrow> string + server_data" where
  "parse_response outcome =
     (case outcome of
        Rejected message \<Rightarrow> Inl message
      | Response status b \<Rightarrow>
          (if \<not> response_ok status then Inl (''HTTP error! status: '' @ string_of_nat status)
           else (case b of InvalidJson message \<Rightarrow> Inl message | JsonData d \<Rightarrow> Inr d)))"

text \<open>
  \<open>submitQuery()\<close>, with the time \<open>now\<close> shown in the audit entry and the outcome of
  the request. \<open>sent\<close> is the page once the request is on its way.
\<close>

definition sent :: "(string \<Rightarrow> string) \<Rightarrow> page \<Rightarrow> string \<Rightarrow> page" where
  "sent reparse st queryText =
     st\<lparr>queryInput := [],
        chatHistory := append_html reparse (chatHistory st) (user_html queryText),
        requests := requests st @ [queryText]\<rparr>"

definition submitQuery :: "(string \<Rightarrow> string) \<Rightarrow> string \<Rightarrow> fetch_outcome \<Rightarrow> page \<Rightarrow> page" where
  "submitQuery reparse now outcome st =
     (let queryText = trim (queryInput st) in
      if queryText = [] then st
      else
        (case parse_response outcome of
           Inl message \<Rightarrow> on_error reparse now queryText message (sent reparse st queryText)
         | Inr d \<Rightarrow>
             (case on_data reparse now queryText d (sent reparse st queryText) of
                (Throw message, st2) \<Rightarrow> on_error reparse now queryText message st2
              | (Normal, st2) \<Rightarrow> st2)))"

section \<open>The answer on an empty context\<close>

text \<open>
  Modelled from the spec: the Answer Synthesizer \<open>synthesize(question, context)\<close> of the
  server. The code that answers \<open>POST /query\<close> is not among the source files. The spec
  (4.4): when the context is empty, the synthesizer returns a fixed "insufficient
  information" answer with no citations; on a context that is not empty it drafts the
  answer with an external text generation, which may fail, and substitutes the citation
  markers. The text of the fixed answer is the parameter \<open>insufficient\<close>, and drafting
  with substitution is the parameter \<open>generate\<close>.
\<close>

record answer_record =
  answer_text :: string
  citations :: "(nat \<times> string) list"

datatype synthesis_error = SynthesisUnavailable

definition synthesize ::
  "string \<Rightarrow> (string \<Rightarrow> 'fragment list \<Rightarrow> synthesis_error + answer_record)
     \<Rightarrow> string \<Rightarrow> 'fragment list \<Rightarrow> synthesis_error + answer_record" where
  "synthesize insufficient generate question context =
     (if context = [] then Inr \<lparr>answer_text = insufficient, citations = []\<rparr>
      else generate question context)"

section \<open>Notions used to state the properties\<close>

text \<open>A page on which nothing has happened.\<close>

definition blank_page :: page where
  "blank_page =
     \<lparr>queryInput = [], chatHistory = [], cypherQueries = [], auditTrail = [], requests = []\<rparr>"

text \<open>
  In the examples the parameter \<open>reparse\<close> is the identity: markup that comes back
  from the parser as it was written.
\<close>

definition keeps_markup :: "string \<Rightarrow> string" where
  "keeps_markup markup = markup"

text \<open>A text without square brackets, such as the digits of a marker.\<close>

definition bracket_free :: "string \<Rightarrow> bool" where
  "bracket_free ds = (CHR ''['' \<notin> set ds \<and> CHR '']'' \<notin> set ds)"

text \<open>
  The documents the response handler cites for a body: those of its graph context when
  that is a string and not empty. The query focus of a body. A graph context that is a
  string or absent.
\<close>

definition docs_of :: "server_data \<Rightarrow> string list" where
  "docs_of d =
     (case graph_context_of d of
        Some (JString g) \<Rightarrow> (if g \<noteq> [] then context_docs g else [])
      | _ \<Rightarrow> [])"

definition semantic_of :: "server_data \<Rightarrow> semantic_data option" where
  "semantic_of d = (case queries_of d of None \<Rightarrow> None | Some q \<Rightarrow> semantic_data q)"

fun textual :: "js_value option \<Rightarrow> bool" where
  "textual None = True"
| "textual (Some (JString g)) = True"
| "textual (Some v) = False"

text \<open>
  What the page has received when a query ended with one error, and when it ended with
  the answer: behind the user's message one more message in the chat, and one entry in
  the audit trail.
\<close>

definition shows_error_only ::
  "(string \<Rightarrow> string) \<Rightarrow> string \<Rightarrow> string \<Rightarrow> string \<Rightarrow> page \<Rightarrow> page \<Rightarrow> bool" where
  "shows_error_only reparse now q message st st' =
     (chatHistory st' =
        append_html reparse (append_html reparse (chatHistory st) (user_html q)) (error_html message)
      \<and> auditTrail st' = append_html reparse (auditTrail st) (error_entry_html now q message)
      \<and> cypherQueries st' = cypherQueries st)"

definition shows_answer_only ::
  "(string \<Rightarrow> string) \<Rightarrow> string \<Rightarrow> string \<Rightarrow> string option \<Rightarrow> string list \<Rightarrow> string list
     \<Rightarrow> semantic_data option \<Rightarrow> page \<Rightarrow> page \<Rightarrow> bool" where
  "shows_answer_only reparse now q text refs docs sem st st' =
     (chatHistory st' =
        append_html reparse (append_html reparse (chatHistory st) (user_html q)) (bot_html text refs)
      \<and> auditTrail st' = append_html reparse (auditTrail st) (resource_html now q docs sem))"

text \<open>
  The pattern \<open>- name.txt\<close> of the audit trail. The name part is not empty and has no
  hyphen and no line feed; a document text is such a name followed by \<open>.txt\<close>.
\<close>

definition valid_name :: "string \<Rightarrow> bool" where
  "valid_name name = (name \<noteq> [] \<and> CHR ''-'' \<notin> set name \<and> CHR 0x0A \<notin> set name)"

definition is_doc :: "string \<Rightarrow> bool" where
  "is_doc doc = (suffix ''.txt'' doc \<and> valid_name (take (length doc - 4) doc))"

text \<open>Bodies and query texts used as examples.\<close>

definition example_body :: server_data where
  "example_body =
     \<lparr>error = None, response = Some ''see a.txt'',
      technical_details = Some \<lparr>queries = Some
        \<lparr>graph_context = Some (JString ''Found in: a.txt''), semantic_data = None\<rparr>\<rparr>\<rparr>"

definition unused_body :: server_data where
  "unused_body =
     \<lparr>error = None, response = Some ''Hello'',
      technical_details = Some \<lparr>queries = Some
        \<lparr>graph_context = Some (JString ''Found in: a.txt''), semantic_data = None\<rparr>\<rparr>\<rparr>"

definition overlap_body :: server_data where
  "overlap_body =
     \<lparr>error = None, response = Some ''See mobile_schedule.txt'',
      technical_details = Some \<lparr>queries = Some
        \<lparr>graph_context = Some (JString
           (''Found in: schedule.txt'' @ [CHR 0x0A] @ ''Found in: mobile_schedule.txt'')),
         semantic_data = None\<rparr>\<rparr>\<rparr>"

definition listing_body :: server_data where
  "listing_body =
     \<lparr>error = None, response = Some ''ok'',
      technical_details = Some \<lparr>queries = Some
        \<lparr>graph_context = Some (JString (''- a.txt'' @ [CHR 0x0A] @ ''- my-notes.txt'')),
         semantic_data = None\<rparr>\<rparr>\<rparr>"

definition greedy_body :: server_data where
  "greedy_body =
     \<lparr>error = None, response = Some ''ok'',
      technical_details = Some \<lparr>queries = Some
        \<lparr>graph_context = Some (JString ''- a.txt, b.txt''), semantic_data = None\<rparr>\<rparr>\<rparr>"

definition no_evidence_body :: server_data where
  "no_evidence_body =
     \<lparr>error = None, response = Some ''Not enough information.'', technical_details = None\<rparr>"

definition empty_error_body :: server_data where
  "empty_error_body =
     \<lparr>error = Some [], response = Some ''partial'', technical_details = None\<rparr>"

definition false_context_body :: server_data where
  "false_context_body =
     \<lparr>error = None, response = Some ''fine'',
      technical_details = Some \<lparr>queries = Some
        \<lparr>graph_context = Some JFalse, semantic_data = None\<rparr>\<rparr>\<rparr>"

definition forged_entry_query :: string where
  \<open>forged_entry_query = ''</div></div><div class="audit-entry error mb-2"><div>''\<close>

section \<open>Decimal digits\<close>

lemma digit_char_in_digits: "d < 10 \<Longrightarrow> digit_char d \<in> set ''0123456789''"
  using nth_mem [of d "''0123456789''"] by (simp add: digit_char_def)

lemma digit_char_inj: "d < 10 \<Longrightarrow> e < 10 \<Longrightarrow> digit_char d = digit_char e \<Longrightarrow> d = e"
  using nth_eq_iff_index_eq [of "''0123456789''" d e] by (simp add: digit_char_def)

lemma string_of_nat_digits: "set (string_of_nat n) \<subseteq> set ''0123456789''"
proof (induction n rule: string_of_nat.induct)
  case (1 n)
  show ?case
  proof (cases "n < 10")
    case True
    then show ?thesis
      using digit_char_in_digits [of n] by (subst string_of_nat.simps) simp
  next
    case False
    then have "set (string_of_nat (n div 10)) \<subseteq> set ''0123456789''"
      using "1.IH" by simp
    moreover have "digit_char (n mod 10) \<in> set ''0123456789''"
      by (rule digit_char_in_digits) simp
    ultimately show ?thesis
      using False by (subst string_of_nat.simps) simp
  qed
qed

lemma string_of_nat_not_Nil: "string_of_nat n \<noteq> []"
  by (subst string_of_nat.simps) simp

lemma string_of_nat_inj: "string_of_nat n = string_of_nat m \<Longrightarrow> n = m"
proof (induction n arbitrary: m rule: string_of_nat.induct)
  case (1 n)
  show ?case
  proof (cases "n < 10")
    case n: True
    show ?thesis
    proof (cases "m < 10")
      case True
      with n "1.prems" show ?thesis
        by (simp add: string_of_nat.simps [of n] string_of_nat.simps [of m] digit_char_inj)
    next
      case False
      with n "1.prems" string_of_nat_not_Nil [of "m div 10"] show ?thesis
        by (simp add: string_of_nat.simps [of n] string_of_nat.simps [of m])
    qed
  next
    case n: False
    show ?thesis
    proof (cases "m < 10")
      case True
      with n "1.prems" string_of_nat_not_Nil [of "n div 10"] show ?thesis
        by (simp add: string_of_nat.simps [of n] string_of_nat.simps [of m])
    next
      case False
      with n "1.prems" have eq: "string_of_nat (n div 10) = string_of_nat (m div 10)"
        and dg: "digit_char (n mod 10) = digit_char (m mod 10)"
        by (simp_all add: string_of_nat.simps [of n] string_of_nat.simps [of m])
      from "1.IH" [OF n eq] have "n div 10 = m div 10" .
      moreover from dg have "n mod 10 = m mod 10"
        by (intro digit_char_inj) simp_all
      ultimately show ?thesis
        by (metis div_mult_mod_eq)
    qed
  qed
qed

lemma string_of_nat_bracket_free: "bracket_free (string_of_nat n)"
  using string_of_nat_digits [of n] by (auto simp: bracket_free_def)

lemma string_of_nat_no_dot: "CHR ''.'' \<notin> set (string_of_nat n)"
  using string_of_nat_digits [of n] by auto

section \<open>Occurrences\<close>

lemma includes_prefix: "prefix m s \<Longrightarrow> includes_str s m"
  by (cases s) simp_all

lemma includes_Cons: "includes_str cs m \<Longrightarrow> includes_str (c # cs) m"
  by simp

lemma includes_append_right: "includes_str b m \<Longrightarrow> includes_str (a @ b) m"
  by (induction a) simp_all

lemma includes_drop: "includes_str (drop n s) m \<Longrightarrow> includes_str s m"
  using includes_append_right [of "drop n s" m "take n s"] by simp

lemma includes_Nil: "includes_str s []"
  by (cases s) simp_all

lemma includes_iff: "includes_str s m \<longleftrightarrow> (\<exists>p q. s = p @ m @ q)"
proof (induction s)
  case Nil
  then show ?case by simp
next
  case (Cons c cs)
  show ?case
  proof
    assume "includes_str (c # cs) m"
    then consider "prefix m (c # cs)" | "includes_str cs m" by auto
    then show "\<exists>p q. c # cs = p @ m @ q"
    proof cases
      case 1
      then obtain q where "c # cs = m @ q" by (auto simp: prefix_def)
      then have "c # cs = [] @ m @ q" by simp
      then show ?thesis by blast
    next
      case 2
      with Cons.IH obtain p q where "cs = p @ m @ q" by blast
      then have "c # cs = (c # p) @ m @ q" by simp
      then show ?thesis by blast
    qed
  next
    assume "\<exists>p q. c # cs = p @ m @ q"
    then obtain p q where pq: "c # cs = p @ m @ q" by blast
    show "includes_str (c # cs) m"
    proof (cases p)
      case Nil
      with pq have "prefix m (c # cs)" by (simp add: prefix_def)
      then show ?thesis by simp
    next
      case (Cons a p')
      with pq have "cs = p' @ m @ q" by simp
      with Cons.IH have "includes_str cs m" by blast
      then show ?thesis by simp
    qed
  qed
qed

section \<open>Markers in a text after a replacement\<close>

lemma token_prefix_eq:
  "bracket_free ds \<Longrightarrow> bracket_free es \<Longrightarrow> prefix (ds @ '']'') (es @ '']'' @ X) \<Longrightarrow> ds = es"
proof (induction ds arbitrary: es)
  case Nil
  then show ?case by (cases es) (auto simp: bracket_free_def)
next
  case (Cons d ds)
  show ?case
  proof (cases es)
    case Nil
    with Cons.prems show ?thesis by (auto simp: bracket_free_def)
  next
    case (Cons e es')
    with Cons.prems have "d = e" "prefix (ds @ '']'') (es' @ '']'' @ X)"
      "bracket_free ds" "bracket_free es'"
      by (auto simp: bracket_free_def)
    with Cons.IH [of es'] Cons show ?thesis by simp
  qed
qed

lemma includes_in_token_tail:
  "CHR ''['' \<notin> set es \<Longrightarrow> includes_str (es @ '']'' @ X) (CHR ''['' # w)
     \<Longrightarrow> includes_str X (CHR ''['' # w)"
  by (induction es) auto

lemma includes_behind_token:
  assumes "bracket_free ds" and "bracket_free es"
    and "includes_str (CHR ''['' # es @ '']'' @ X) (CHR ''['' # ds @ '']'')"
  shows "ds = es \<or> includes_str X (CHR ''['' # ds @ '']'')"
proof -
  from assms(3) consider "prefix (ds @ '']'') (es @ '']'' @ X)"
    | "includes_str (es @ '']'' @ X) (CHR ''['' # ds @ '']'')"
    by auto
  then show ?thesis
  proof cases
    case 1
    with assms(1,2) show ?thesis by (auto dest: token_prefix_eq)
  next
    case 2
    with assms(2) show ?thesis
      by (auto simp: bracket_free_def dest: includes_in_token_tail)
  qed
qed

lemma prefix_replace_all:
  "CHR ''['' \<notin> set w \<Longrightarrow> w \<noteq> [] \<Longrightarrow> prefix w (replace_all pat (CHR ''['' # r) s)
     \<Longrightarrow> prefix w s"
proof (induction pat "CHR ''['' # r" s arbitrary: w rule: replace_all.induct)
  case (1 pat s)
  obtain c w' where w: "w = c # w'" using "1.prems"(2) by (cases w) auto
  with "1.prems"(1) have c: "c \<noteq> CHR ''[''" and w': "CHR ''['' \<notin> set w'" by auto
  show ?case
  proof (cases "pat = []")
    case True
    with "1.prems"(3) w c show ?thesis
      by (subst (asm) replace_all.simps) (auto split: list.splits)
  next
    case pat: False
    show ?thesis
    proof (cases "s = []")
      case True
      with pat "1.prems"(3) w show ?thesis
        by (subst (asm) replace_all.simps) simp
    next
      case s: False
      show ?thesis
      proof (cases "prefix pat s")
        case True
        with pat s "1.prems"(3) w c show ?thesis
          by (subst (asm) replace_all.simps) simp
      next
        case False
        with pat s "1.prems"(3) w
        have hd: "c = hd s" and rest: "prefix w' (replace_all pat (CHR ''['' # r) (tl s))"
          by (subst (asm) replace_all.simps, simp)+
        have "prefix w' (tl s)"
        proof (cases "w' = []")
          case True
          then show ?thesis by simp
        next
          case False
          from "1.hyps"(3) [OF pat s \<open>\<not> prefix pat s\<close> w' False rest] show ?thesis .
        qed
        with hd s w show ?thesis by (cases s) auto
      qed
    qed
  qed
qed

lemma token_in_replace_all:
  assumes "bracket_free ds" and "bracket_free es"
  shows "includes_str (replace_all pat (CHR ''['' # es @ '']'') s) (CHR ''['' # ds @ '']'')
     \<Longrightarrow> ds = es \<or> includes_str s (CHR ''['' # ds @ '']'')"
proof (induction pat "CHR ''['' # es @ '']''" s rule: replace_all.induct)
  case (1 pat s)
  let ?rep = "CHR ''['' # es @ '']''" and ?m = "CHR ''['' # ds @ '']''"
  have w: "CHR ''['' \<notin> set (ds @ '']'')" "ds @ '']'' \<noteq> []"
    using assms(1) by (auto simp: bracket_free_def)
  show ?case
  proof (cases "pat = []")
    case True
    show ?thesis
    proof (cases s)
      case Nil
      with True "1.prems" have "includes_str (CHR ''['' # es @ '']'' @ []) ?m"
        by (subst (asm) replace_all.simps) simp
      from includes_behind_token [OF assms this] show ?thesis by auto
    next
      case (Cons c cs)
      with True "1.prems"
      have "includes_str (CHR ''['' # es @ '']'' @ (c # replace_all pat ?rep cs)) ?m"
        by (subst (asm) replace_all.simps) simp
      from includes_behind_token [OF assms this]
      consider "ds = es" | "prefix ?m (c # replace_all pat ?rep cs)"
        | "includes_str (replace_all pat ?rep cs) ?m"
        by auto
      then show ?thesis
      proof cases
        case 1
        then show ?thesis by simp
      next
        case 2
        then have "c = CHR ''[''" "prefix (ds @ '']'') (replace_all pat ?rep cs)" by auto
        with prefix_replace_all [OF w, of pat "es @ '']''" cs] Cons show ?thesis by simp
      next
        case 3
        from "1.hyps"(1) [OF True Cons 3] Cons show ?thesis by auto
      qed
    qed
  next
    case pat: False
    show ?thesis
    proof (cases "s = []")
      case True
      with pat "1.prems" show ?thesis
        by (subst (asm) replace_all.simps) simp
    next
      case s: False
      show ?thesis
      proof (cases "prefix pat s")
        case True
        with pat s "1.prems"
        have "includes_str (CHR ''['' # es @ '']'' @ replace_all pat ?rep (drop (length pat) s)) ?m"
          by (subst (asm) replace_all.simps) simp
        from includes_behind_token [OF assms this]
        consider "ds = es" | "includes_str (replace_all pat ?rep (drop (length pat) s)) ?m"
          by auto
        then show ?thesis
        proof cases
          case 1
          then show ?thesis by simp
        next
          case 2
          from "1.hyps"(2) [OF pat s True 2] show ?thesis
            by (auto dest: includes_drop)
        qed
      next
        case False
        with pat s "1.prems"
        have "includes_str (hd s # replace_all pat ?rep (tl s)) ?m"
          by (subst (asm) replace_all.simps) simp
        then consider "prefix ?m (hd s # replace_all pat ?rep (tl s))"
          | "includes_str (replace_all pat ?rep (tl s)) ?m"
          by auto
        then show ?thesis
        proof cases
          case 1
          then have "hd s = CHR ''[''" "prefix (ds @ '']'') (replace_all pat ?rep (tl s))" by auto
          with prefix_replace_all [OF w, of pat "es @ '']''" "tl s"] s show ?thesis
            by (cases s) auto
        next
          case 2
          from "1.hyps"(3) [OF pat s False 2] s show ?thesis
            by (cases s) auto
        qed
      qed
    qed
  qed
qed

section \<open>The citation loop\<close>

lemma marker_token: "marker k = CHR ''['' # string_of_nat k @ '']''"
  by (simp add: marker_def)

lemma marker_in_replace_all:
  "includes_str (replace_all pat (marker j) s) (marker k) \<Longrightarrow> k = j \<or> includes_str s (marker k)"
  unfolding marker_token
  using token_in_replace_all [OF string_of_nat_bracket_free string_of_nat_bracket_free, of pat j s k]
  by (auto dest: string_of_nat_inj)

lemma marker_in_cite_loop:
  "includes_str (fst (cite_loop docs i (t, refs))) (marker k)
     \<Longrightarrow> includes_str t (marker k) \<or> (i < k \<and> k \<le> i + length docs)"
proof (induction docs arbitrary: i t refs)
  case Nil
  then show ?case by simp
next
  case (Cons doc docs)
  from Cons.prems
  have "includes_str (fst (cite_loop docs (Suc i)
          (replace_all doc (marker (Suc i)) t, set_add refs (reference (Suc i) doc)))) (marker k)"
    by (simp add: cite_step_def)
  from Cons.IH [OF this]
  consider "includes_str (replace_all doc (marker (Suc i)) t) (marker k)"
    | "Suc i < k \<and> k \<le> Suc i + length docs"
    by blast
  then show ?case
  proof cases
    case 1
    from marker_in_replace_all [OF 1] show ?thesis by auto
  next
    case 2
    then show ?thesis by simp
  qed
qed

lemma set_cite_loop:
  "set (snd (cite_loop docs i (t, refs)))
     = set refs \<union> {reference (Suc (i + j)) (docs ! j) | j. j < length docs}"
proof (induction docs arbitrary: i t refs)
  case Nil
  then show ?case by simp
next
  case (Cons doc docs)
  have "{reference (Suc (i + j)) ((doc # docs) ! j) | j. j < length (doc # docs)}
        = insert (reference (Suc i) doc)
            {reference (Suc (Suc i + j)) (docs ! j) | j. j < length docs}"
    (is "?L = insert ?x ?R")
  proof (intro set_eqI iffI)
    fix x assume "x \<in> ?L"
    then obtain j where j: "j < length (doc # docs)" "x = reference (Suc (i + j)) ((doc # docs) ! j)"
      by blast
    then show "x \<in> insert ?x ?R"
      by (cases j) auto
  next
    fix x assume "x \<in> insert ?x ?R"
    then consider "x = ?x" | j where "j < length docs" "x = reference (Suc (Suc i + j)) (docs ! j)"
      by blast
    then show "x \<in> ?L"
    proof cases
      case 1
      then have "0 < length (doc # docs) \<and> x = reference (Suc (i + 0)) ((doc # docs) ! 0)" by simp
      then show ?thesis by blast
    next
      case 2
      then have "Suc j < length (doc # docs) \<and> x = reference (Suc (i + Suc j)) ((doc # docs) ! Suc j)"
        by simp
      then show ?thesis by blast
    qed
  qed
  then show ?case
    by (auto simp: cite_step_def Cons.IH set_add_def)
qed

lemma first_separator:
  "c \<notin> set a \<Longrightarrow> c \<notin> set b \<Longrightarrow> a @ c # x = b @ c # y \<Longrightarrow> a = b \<and> x = y"
proof (induction a arbitrary: b)
  case Nil
  then show ?case by (cases b) auto
next
  case (Cons h a)
  then show ?case by (cases b) auto
qed

lemma reference_inj: "reference k doc = reference k' doc' \<Longrightarrow> k = k' \<and> doc = doc'"
  using first_separator [of "CHR ''.''" "string_of_nat k" "string_of_nat k'"
      "CHR '' '' # doc" "CHR '' '' # doc'"]
  by (auto simp: reference_def string_of_nat_no_dot dest: string_of_nat_inj)

lemma snd_cite_loop:
  assumes "\<forall>ref \<in> set refs. \<forall>k doc. i < k \<longrightarrow> ref \<noteq> reference k doc"
  shows "snd (cite_loop docs i (t, refs))
           = refs @ map (\<lambda>j. reference (Suc (i + j)) (docs ! j)) [0 ..< length docs]"
  using assms
proof (induction docs arbitrary: i t refs)
  case Nil
  then show ?case by simp
next
  case (Cons doc docs)
  from Cons.prems have new: "reference (Suc i) doc \<notin> set refs" by auto
  have inv: "\<forall>ref \<in> set (refs @ [reference (Suc i) doc]). \<forall>k d. Suc i < k \<longrightarrow> ref \<noteq> reference k d"
    using Cons.prems by (auto dest: reference_inj)
  have "map (\<lambda>j. reference (Suc (i + j)) ((doc # docs) ! j)) [0 ..< length (doc # docs)]
        = reference (Suc i) doc # map (\<lambda>j. reference (Suc (Suc i + j)) (docs ! j)) [0 ..< length docs]"
    by (simp add: upt_conv_Cons map_Suc_upt [symmetric] del: upt_Suc)
  with Cons.IH [OF inv, of "replace_all doc (marker (Suc i)) t"] new show ?case
    by (simp add: cite_step_def set_add_def del: upt_Suc)
qed

lemma replace_all_absent: "\<not> includes_str s pat \<Longrightarrow> replace_all pat rep s = s"
proof (induction pat rep s rule: replace_all.induct)
  case (1 pat rep s)
  show ?case
  proof (cases "pat = []")
    case True
    with "1.prems" show ?thesis by (simp add: includes_Nil)
  next
    case pat: False
    show ?thesis
    proof (cases s)
      case Nil
      with pat show ?thesis by (subst replace_all.simps) simp
    next
      case (Cons c cs)
      with "1.prems" have np: "\<not> prefix pat s" and nt: "\<not> includes_str (tl s) pat" by auto
      from "1.IH"(3) [OF pat _ np nt] Cons have "replace_all pat rep cs = cs" by simp
      with pat Cons np show ?thesis by (subst replace_all.simps) simp
    qed
  qed
qed

lemma fst_cite_loop_absent:
  "\<forall>doc \<in> set docs. \<not> includes_str t doc \<Longrightarrow> fst (cite_loop docs i (t, refs)) = t"
  by (induction docs arbitrary: i refs) (simp_all add: cite_step_def replace_all_absent)

section \<open>First occurrences\<close>

lemma indexOf_less: "x \<in> set xs \<Longrightarrow> indexOf xs x < length xs"
  by (induction xs) auto

lemma nth_indexOf: "x \<in> set xs \<Longrightarrow> xs ! indexOf xs x = x"
  by (induction xs) auto

lemma set_first_occurrences: "set (first_occurrences xs) = set xs"
proof (intro set_eqI iffI)
  fix x assume "x \<in> set (first_occurrences xs)"
  then show "x \<in> set xs"
    by (auto simp: first_occurrences_def dest: set_zip_leftD)
next
  fix x assume x: "x \<in> set xs"
  let ?i = "indexOf xs x"
  from x have "?i < length xs" "xs ! ?i = x"
    by (simp_all add: indexOf_less nth_indexOf)
  then have "(x, ?i) \<in> set (zip xs [0 ..< length xs])"
    by (auto simp: in_set_zip intro!: exI [of _ "indexOf xs x"])
  then have "(x, ?i) \<in> set (filter (\<lambda>(doc, index). indexOf xs doc = index) (zip xs [0 ..< length xs]))"
    by simp
  then show "x \<in> set (first_occurrences xs)"
    unfolding first_occurrences_def by (metis fst_conv image_eqI set_map)
qed

lemma distinct_first_occurrences: "distinct (first_occurrences xs)"
proof -
  have "distinct (zip xs [0 ..< length xs])"
    by (rule distinct_zipI2) simp
  then have "distinct (filter (\<lambda>(doc, index). indexOf xs doc = index) (zip xs [0 ..< length xs]))"
    by simp
  moreover have "inj_on fst (set (filter (\<lambda>(doc, index). indexOf xs doc = index) (zip xs [0 ..< length xs])))"
    by (auto simp: inj_on_def)
  ultimately show ?thesis
    by (simp add: first_occurrences_def distinct_map)
qed

lemma first_occurrences_order:
  "sorted_wrt (<) (map (indexOf xs) (first_occurrences xs))"
proof -
  let ?P = "\<lambda>(doc, index). indexOf xs doc = index"
  let ?zs = "zip xs [0 ..< length xs]"
  have "map (indexOf xs) (first_occurrences xs) = map snd (filter ?P ?zs)"
    by (auto simp: first_occurrences_def)
  moreover have "sorted_wrt (<) (map snd ?zs)"
    by simp
  then have "sorted_wrt (\<lambda>p q. snd p < snd q) ?zs"
    by (simp only: sorted_wrt_map)
  then have "sorted_wrt (\<lambda>p q. snd p < snd q) (filter ?P ?zs)"
    by (rule sorted_wrt_filter)
  then have "sorted_wrt (<) (map snd (filter ?P ?zs))"
    by (simp only: sorted_wrt_map)
  ultimately show ?thesis by simp
qed

section \<open>Pieces of a split\<close>

lemma js_split_not_Nil: "sep \<noteq> [] \<Longrightarrow> js_split sep s \<noteq> []"
  by (subst js_split.simps) (auto split: list.splits)

lemma js_split_second:
  "sep \<noteq> [] \<Longrightarrow> includes_str s sep \<Longrightarrow> 2 \<le> length (js_split sep s)"
proof (induction sep s rule: js_split.induct)
  case (1 sep s)
  show ?case
  proof (cases "s = []")
    case True
    with "1.prems" show ?thesis by simp
  next
    case s: False
    show ?thesis
    proof (cases "prefix sep s")
      case True
      with "1.prems"(1) s js_split_not_Nil [of sep "drop (length sep) s"] show ?thesis
        by (subst js_split.simps) (cases "js_split sep (drop (length sep) s)", simp_all)
    next
      case False
      with "1.prems" s have "includes_str (tl s) sep" by (cases s) auto
      from "1.IH"(2) [OF "1.prems"(1) s False "1.prems"(1) this]
      show ?thesis
        using "1.prems"(1) s False
        by (subst js_split.simps) (auto split: list.splits)
    qed
  qed
qed

section \<open>The references of a body\<close>

lemma refs_of_loop:
  "snd (cite_loop docs 0 (r, [])) = map (\<lambda>j. reference (Suc j) (docs ! j)) [0 ..< length docs]"
  using snd_cite_loop [of "[]" 0 docs r] by simp

lemma add_references_Some:
  "response d = Some r \<Longrightarrow> \<forall>text. graph_context_of d \<noteq> Some (JTruthy text) \<Longrightarrow>
   add_references d = Inr (Some (fst (cite_loop (docs_of d) 0 (r, []))),
                           snd (cite_loop (docs_of d) 0 (r, [])))"
  by (cases "graph_context_of d" rule: truthy_value.cases)
     (auto simp: add_references_def docs_of_def split: list.splits prod.splits)

lemma add_references_not_a_string:
  "graph_context_of d = Some (JTruthy text) \<Longrightarrow> add_references d = Inl split_not_a_function"
  by (simp add: add_references_def)

lemma add_references_Inr:
  assumes "add_references d = Inr (t, refs)"
  shows "refs = map (\<lambda>j. reference (Suc j) (docs_of d ! j)) [0 ..< length (docs_of d)]"
    and "\<forall>text. graph_context_of d \<noteq> Some (JTruthy text)"
    and "response d = Some r \<Longrightarrow> t = Some (fst (cite_loop (docs_of d) 0 (r, [])))"
proof -
  show nt: "\<forall>text. graph_context_of d \<noteq> Some (JTruthy text)"
    using assms add_references_not_a_string [of d] by auto
  show "t = Some (fst (cite_loop (docs_of d) 0 (r, [])))" if "response d = Some r"
    using add_references_Some [OF that nt] assms by simp
  show "refs = map (\<lambda>j. reference (Suc j) (docs_of d ! j)) [0 ..< length (docs_of d)]"
  proof (cases "response d")
    case (Some r)
    from add_references_Some [OF Some nt] assms show ?thesis
      by (simp add: refs_of_loop)
  next
    case None
    with assms nt show ?thesis
      by (cases "graph_context_of d" rule: truthy_value.cases)
         (auto simp: add_references_def docs_of_def split: list.splits if_splits)
  qed
qed

lemma docs_of_in_context:
  "doc \<in> set (docs_of d) \<Longrightarrow>
     \<exists>g. graph_context_of d = Some (JString g) \<and> g \<noteq> [] \<and> doc \<in> set (context_titles g)"
  by (cases "graph_context_of d" rule: truthy_value.cases)
     (auto simp: docs_of_def context_docs_def set_first_occurrences split: if_splits)

lemma example_body_references:
  "add_references example_body = Inr (Some ''see [1]'', [''1. a.txt''])"
  by code_simp

lemma example_body_marker:
  "includes_str ''see [1]'' (marker 1) \<and> \<not> includes_str ''see a.txt'' (marker 1)"
  by code_simp

lemma context_docs_example: "context_docs ''Found in: a.txt'' = [''a.txt'']"
  by code_simp

section \<open>The document pattern of the audit trail\<close>

lemma backtrack_Some:
  "backtrack rest n = Some k \<Longrightarrow>
     0 < k \<and> k \<le> n \<and> prefix ''.txt'' (drop k rest)
     \<and> (\<forall>j. k < j \<and> j \<le> n \<longrightarrow> \<not> prefix ''.txt'' (drop j rest))"
proof (induction n)
  case 0
  then show ?case by simp
next
  case (Suc n)
  show ?case
  proof (cases "prefix ''.txt'' (drop (Suc n) rest)")
    case True
    with Suc.prems show ?thesis by auto
  next
    case False
    with Suc.prems have "backtrack rest n = Some k" by simp
    from Suc.IH [OF this] False show ?thesis
      by (auto simp: le_Suc_eq)
  qed
qed

lemma backtrack_None:
  "backtrack rest n = None \<Longrightarrow> 0 < j \<Longrightarrow> j \<le> n \<Longrightarrow> \<not> prefix ''.txt'' (drop j rest)"
proof (induction n)
  case 0
  then show ?case by simp
next
  case (Suc n)
  then show ?case
    by (cases "prefix ''.txt'' (drop (Suc n) rest)") (auto simp: le_Suc_eq)
qed

lemma backtrack_finds:
  assumes "0 < j" and "j \<le> n" and "prefix ''.txt'' (drop j rest)"
  shows "\<exists>k. backtrack rest n = Some k \<and> j \<le> k"
proof (cases "backtrack rest n")
  case None
  from backtrack_None [OF None assms(1,2)] assms(3) show ?thesis by simp
next
  case (Some k)
  from backtrack_Some [OF Some] assms have "j \<le> k"
    by (meson not_le_imp_less)
  with Some show ?thesis by simp
qed

lemma take_takeWhile:
  "k \<le> length (takeWhile P xs) \<Longrightarrow> \<forall>c \<in> set (take k xs). P c"
proof -
  assume k: "k \<le> length (takeWhile P xs)"
  have "take k xs = take k (takeWhile P xs @ dropWhile P xs)" by simp
  also have "\<dots> = take k (takeWhile P xs)" using k by (simp del: takeWhile_dropWhile_id)
  finally have "set (take k xs) \<subseteq> set (takeWhile P xs)" by (simp add: set_take_subset)
  then show ?thesis by (auto dest: set_takeWhileD)
qed

lemma match_at_shape:
  assumes "match_at s = Some m"
  shows "\<exists>name. m = ''- '' @ name @ ''.txt'' \<and> name \<noteq> [] \<and> (\<forall>c \<in> set name. name_char c)
           \<and> prefix m s"
proof -
  let ?rest = "drop 2 s"
  let ?n = "length (takeWhile name_char ?rest)"
  from assms have pre: "prefix ''- '' s"
    by (auto simp: match_at_def split: if_splits)
  then have s: "s = ''- '' @ ?rest"
    by (auto simp: prefix_def)
  from assms pre obtain k where k: "backtrack ?rest ?n = Some k" and m: "m = take (2 + k + 4) s"
    by (auto simp: match_at_def split: option.splits)
  from backtrack_Some [OF k] have k0: "0 < k" and kn: "k \<le> ?n"
    and ext: "prefix ''.txt'' (drop k ?rest)"
    by simp_all
  from ext have t4: "take 4 (drop k ?rest) = ''.txt''"
    by (auto simp: prefix_def)
  have "m = take (2 + (k + 4)) (''- '' @ ?rest)"
    using m s by (simp add: add.assoc)
  also have "\<dots> = ''- '' @ take (k + 4) ?rest"
    by (simp add: eval_nat_numeral)
  also have "take (k + 4) ?rest = take k ?rest @ take 4 (drop k ?rest)"
    by (rule take_add)
  finally have shape: "m = ''- '' @ take k ?rest @ ''.txt''"
    using t4 by simp
  have "length (takeWhile name_char ?rest) \<le> length ?rest"
    by (rule length_takeWhile_le)
  with k0 kn have "take k ?rest \<noteq> []" by auto
  moreover from take_takeWhile [OF kn] have "\<forall>c \<in> set (take k ?rest). name_char c" .
  moreover from m have "prefix m s" by (simp add: take_is_prefix)
  ultimately show ?thesis using shape by blast
qed

lemma match_at_no_hyphen:
  assumes "match_at s = Some m"
  shows "m \<noteq> [] \<and> CHR ''-'' \<notin> set (tl m)"
proof -
  from match_at_shape [OF assms] obtain name
    where "m = ''- '' @ name @ ''.txt''" "\<forall>c \<in> set name. name_char c"
    by blast
  then show ?thesis by (auto simp: name_char_def)
qed

lemma match_all_sound:
  "m \<in> set (match_all s) \<Longrightarrow> \<exists>p t. s = p @ t \<and> match_at t = Some m"
proof (induction s rule: match_all.induct)
  case (1 s)
  show ?case
  proof (cases "s = []")
    case True
    with "1.prems" show ?thesis by (simp add: match_all.simps)
  next
    case s: False
    show ?thesis
    proof (cases "match_at s")
      case None
      with s "1.prems" have "m \<in> set (match_all (tl s))"
        by (subst (asm) match_all.simps) simp
      from "1.IH"(1) [OF s None this] obtain p t where "tl s = p @ t" "match_at t = Some m"
        by blast
      with s have "s = (hd s # p) @ t \<and> match_at t = Some m"
        by (cases s) auto
      then show ?thesis by blast
    next
      case (Some m')
      with s "1.prems" consider "m = m'" | "m \<in> set (match_all (drop (length m') s))"
        by (subst (asm) match_all.simps) auto
      then show ?thesis
      proof cases
        case 1
        with Some have "s = [] @ s \<and> match_at s = Some m" by simp
        then show ?thesis by blast
      next
        case 2
        from "1.IH"(2) [OF s Some 2] obtain p t
          where "drop (length m') s = p @ t" "match_at t = Some m"
          by blast
        then have "s = (take (length m') s @ p) @ t \<and> match_at t = Some m"
          by (metis append.assoc append_take_drop_id)
        then show ?thesis by blast
      qed
    qed
  qed
qed

lemma match_all_reaches:
  assumes "match_at t = Some m"
  shows "m \<in> set (match_all (p @ t))"
proof (induction "length p" arbitrary: p rule: less_induct)
  case less
  from assms have t: "prefix ''- '' t"
    by (auto simp: match_at_def split: if_splits)
  then have t0: "t \<noteq> []" by auto
  show ?case
  proof (cases p)
    case Nil
    with assms t0 show ?thesis
      by (subst match_all.simps) simp
  next
    case (Cons c p')
    let ?s = "p @ t"
    have s: "?s \<noteq> []" using Cons by simp
    show ?thesis
    proof (cases "match_at ?s")
      case None
      from less [of p'] Cons have "m \<in> set (match_all (p' @ t))" by simp
      with None s Cons show ?thesis
        by (subst match_all.simps) simp
    next
      case (Some m')
      from match_at_no_hyphen [OF Some] have m0: "m' \<noteq> []" and nh: "CHR ''-'' \<notin> set (tl m')"
        by simp_all
      from match_at_shape [OF Some] have pre: "prefix m' (p @ t)" by blast
      have le: "length m' \<le> length p"
      proof (rule ccontr)
        assume "\<not> length m' \<le> length p"
        with pre obtain us where us: "m' = p @ us" "prefix us t"
          by (auto simp: prefix_append dest: prefix_length_le)
        with \<open>\<not> length m' \<le> length p\<close> have "us \<noteq> []" by auto
        with us(2) t have "hd us = CHR ''-''"
          by (cases us) (auto simp: prefix_def)
        with \<open>us \<noteq> []\<close> have "CHR ''-'' \<in> set us"
          by (cases us) auto
        with us(1) Cons nh show False by simp
      qed
      then have "drop (length m') ?s = drop (length m') p @ t" by simp
      moreover from m0 Cons have "length (drop (length m') p) < length p" by (cases m') auto
      from less [OF this] have "m \<in> set (match_all (drop (length m') p @ t))" .
      ultimately show ?thesis
        using Some s by (subst match_all.simps) simp
    qed
  qed
qed

lemma valid_name_chars: "valid_name name \<Longrightarrow> \<forall>c \<in> set name. name_char c"
  by (auto simp: valid_name_def name_char_def)

lemma prefix_take_longer:
  "length a \<le> n \<Longrightarrow> prefix a (take n (a @ q))"
  by (simp add: prefix_def)

lemma match_at_occurrence:
  assumes "valid_name name"
  shows "\<exists>m. match_at (''- '' @ name @ ''.txt'' @ q) = Some m \<and> prefix (''- '' @ name @ ''.txt'') m"
proof -
  let ?s = "''- '' @ name @ ''.txt'' @ q"
  let ?rest = "name @ ''.txt'' @ q"
  let ?n = "length (takeWhile name_char ?rest)"
  have rest: "drop 2 ?s = ?rest" by simp
  have pre: "prefix ''- '' ?s" by simp
  have "takeWhile name_char ?rest = name @ takeWhile name_char (''.txt'' @ q)"
    using valid_name_chars [OF assms] by (simp add: takeWhile_append2)
  then have n: "length name \<le> ?n" by simp
  have j: "0 < length name" using assms by (simp add: valid_name_def)
  have "prefix ''.txt'' (drop (length name) ?rest)" by simp
  from backtrack_finds [OF j n this] obtain k
    where k: "backtrack ?rest ?n = Some k" "length name \<le> k"
    by blast
  have m: "match_at ?s = Some (take (2 + k + 4) ?s)"
    unfolding match_at_def rest using pre k(1) by (simp only: if_True option.case)
  have "length (''- '' @ name @ ''.txt'') \<le> 2 + k + 4" using k(2) by simp
  from prefix_take_longer [OF this, of q]
  have "prefix (''- '' @ name @ ''.txt'') (take (2 + k + 4) ?s)"
    by simp
  with m show ?thesis by blast
qed

lemma valid_name_iff: "valid_name name \<longleftrightarrow> name \<noteq> [] \<and> (\<forall>c \<in> set name. name_char c)"
  by (auto simp: valid_name_def name_char_def)

lemma is_doc_iff: "is_doc doc \<longleftrightarrow> (\<exists>name. doc = name @ ''.txt'' \<and> valid_name name)"
proof
  assume "is_doc doc"
  then obtain name where "doc = name @ ''.txt''" and v: "valid_name (take (length doc - 4) doc)"
    by (auto simp: is_doc_def suffix_def)
  then show "\<exists>name. doc = name @ ''.txt'' \<and> valid_name name" by auto
next
  assume "\<exists>name. doc = name @ ''.txt'' \<and> valid_name name"
  then show "is_doc doc" by (auto simp: is_doc_def suffix_def)
qed

lemma prefix_takeWhile_length:
  "prefix w xs \<Longrightarrow> \<forall>c \<in> set w. P c \<Longrightarrow> length w \<le> length (takeWhile P xs)"
proof -
  assume "prefix w xs" and all: "\<forall>c \<in> set w. P c"
  then obtain ys where "xs = w @ ys" by (auto simp: prefix_def)
  with all have "takeWhile P xs = w @ takeWhile P ys" by (simp add: takeWhile_append2)
  then show ?thesis by simp
qed

lemma match_at_maximal:
  assumes "match_at t = Some m" and "valid_name name'" and "prefix (name' @ ''.txt'') (drop 2 t)"
  shows "length name' + 6 \<le> length m"
proof -
  let ?rest = "drop 2 t"
  let ?n = "length (takeWhile name_char ?rest)"
  from assms(1) have pre: "prefix ''- '' t"
    by (auto simp: match_at_def split: if_splits)
  from assms(1) pre obtain k where k: "backtrack ?rest ?n = Some k" and m: "m = take (2 + k + 4) t"
    by (auto simp: match_at_def split: option.splits)
  from backtrack_Some [OF k] have ext: "prefix ''.txt'' (drop k ?rest)"
    and top: "\<forall>j. k < j \<and> j \<le> ?n \<longrightarrow> \<not> prefix ''.txt'' (drop j ?rest)"
    by simp_all
  from ext have "k + 4 \<le> length ?rest"
    by (auto simp: prefix_def dest!: arg_cong [where f = length])
  then have len: "length m = k + 6" using m by simp
  let ?j = "length name'"
  have chars: "\<forall>c \<in> set (name' @ ''.txt''). name_char c"
    using assms(2) by (auto simp: valid_name_def name_char_def)
  from prefix_takeWhile_length [OF assms(3) chars] have jn: "?j \<le> ?n" by simp
  from assms(3) obtain ys where rest: "?rest = name' @ ''.txt'' @ ys"
    by (auto simp: prefix_def)
  then have "prefix ''.txt'' (drop ?j ?rest)" by simp
  with top jn have "?j \<le> k" by (meson not_le_imp_less)
  with len show ?thesis by simp
qed

lemma prefix_not_longer: "prefix a b \<Longrightarrow> length b \<le> length a \<Longrightarrow> b = a"
  by (auto simp: prefix_def)

lemma matched_docs_sound:
  assumes "doc \<in> set (matched_docs g)"
  shows "\<exists>p q. g = p @ ''- '' @ doc @ q \<and> is_doc doc
           \<and> (\<forall>doc'. is_doc doc' \<and> prefix doc' (doc @ q) \<longrightarrow> length doc' \<le> length doc)"
proof -
  from assms obtain m where m: "m \<in> set (match_all g)" and doc: "doc = drop 2 m"
    by (auto simp: matched_docs_def)
  from match_all_sound [OF m] obtain p t where t: "g = p @ t" "match_at t = Some m"
    by blast
  from match_at_shape [OF t(2)] obtain name
    where name: "m = ''- '' @ name @ ''.txt''" "name \<noteq> []" "\<forall>c \<in> set name. name_char c"
      "prefix m t"
    by blast
  from name(4) obtain q where q: "t = m @ q" by (auto simp: prefix_def)
  from name(1) doc have d: "doc = name @ ''.txt''" by simp
  from name(2,3) have "valid_name name" by (simp add: valid_name_iff)
  with d have "is_doc doc" by (auto simp: is_doc_iff)
  moreover from t(1) q name(1) d have "g = p @ ''- '' @ doc @ q" by simp
  moreover have "length doc' \<le> length doc" if "is_doc doc'" "prefix doc' (doc @ q)" for doc'
  proof -
    from that(1) obtain name' where n': "doc' = name' @ ''.txt''" "valid_name name'"
      by (auto simp: is_doc_iff)
    from q name(1) d have "drop 2 t = doc @ q" by simp
    with that(2) n'(1) have "prefix (name' @ ''.txt'') (drop 2 t)" by simp
    from match_at_maximal [OF t(2) n'(2) this] name(1) d n'(1) show ?thesis by simp
  qed
  ultimately show ?thesis by blast
qed

lemma matched_docs_complete:
  assumes "is_doc doc"
    and "\<forall>doc'. is_doc doc' \<and> prefix doc' (doc @ q) \<longrightarrow> length doc' \<le> length doc"
  shows "doc \<in> set (matched_docs (p @ ''- '' @ doc @ q))"
proof -
  from assms(1) obtain name where name: "doc = name @ ''.txt''" "valid_name name"
    by (auto simp: is_doc_iff)
  from match_at_occurrence [OF name(2), of q] obtain m
    where m: "match_at (''- '' @ name @ ''.txt'' @ q) = Some m"
      and lo: "prefix (''- '' @ name @ ''.txt'') m"
    by blast
  from match_at_shape [OF m] obtain name'
    where shape: "m = ''- '' @ name' @ ''.txt''" "name' \<noteq> []" "\<forall>c \<in> set name'. name_char c"
      and hi: "prefix m (''- '' @ name @ ''.txt'' @ q)"
    by blast
  let ?doc' = "name' @ ''.txt''"
  from shape(2,3) have "is_doc ?doc'" by (auto simp: is_doc_iff valid_name_iff)
  moreover from hi shape(1) name(1) have "prefix ?doc' (doc @ q)" by simp
  ultimately have le: "length ?doc' \<le> length doc" using assms(2) by blast
  from lo shape(1) name(1) have pre: "prefix doc ?doc'" by simp
  from prefix_not_longer [OF pre le] have "?doc' = doc" .
  with shape(1) have "m = ''- '' @ doc" by simp
  with match_all_reaches [OF m, of p] name(1) show ?thesis
    by (force simp: matched_docs_def)
qed

lemma matched_docs_iff:
  "doc \<in> set (matched_docs g) \<longleftrightarrow>
     (\<exists>p q. g = p @ ''- '' @ doc @ q \<and> is_doc doc
        \<and> (\<forall>doc'. is_doc doc' \<and> prefix doc' (doc @ q) \<longrightarrow> length doc' \<le> length doc))"
  using matched_docs_sound [of doc g] matched_docs_complete by blast

lemma matched_docs_titles:
  "CHR ''-'' \<in> set title \<or> \<not> suffix ''.txt'' title \<Longrightarrow> title \<notin> set (matched_docs g)"
proof
  assume t: "CHR ''-'' \<in> set title \<or> \<not> suffix ''.txt'' title"
    and "title \<in> set (matched_docs g)"
  from matched_docs_sound [OF this(2)] have "is_doc title" by blast
  then obtain name where "title = name @ ''.txt''" "valid_name name"
    by (auto simp: is_doc_iff)
  with t show False by (auto simp: valid_name_def suffix_def)
qed

section \<open>Effects of the handlers on the page\<close>

lemma displayQueries_frame:
  "auditTrail (displayQueries d st) = auditTrail st
   \<and> chatHistory (displayQueries d st) = chatHistory st
   \<and> requests (displayQueries d st) = requests st
   \<and> queryInput (displayQueries d st) = queryInput st"
  by (simp add: displayQueries_def Let_def split: option.splits)

lemma audit_docs_textual:
  "textual gc \<Longrightarrow>
     audit_docs gc = Inr (case gc of Some (JString g) \<Rightarrow> matched_docs g | _ \<Rightarrow> [])"
  by (cases gc rule: textual.cases) simp_all

lemma audit_docs_not_textual: "\<not> textual gc \<Longrightarrow> audit_docs gc = Inl match_not_a_function"
  by (cases gc rule: audit_docs.cases) simp_all

lemma audit_docs_Inr: "audit_docs gc = Inr docs \<Longrightarrow> textual gc"
  by (cases gc rule: audit_docs.cases) simp_all

lemma updateAuditTrail_result:
  "updateAuditTrail reparse now q d st =
     (case audit_docs (graph_context_of d) of
        Inl message \<Rightarrow> (Throw message, st)
      | Inr docs \<Rightarrow>
          (Normal, st\<lparr>auditTrail :=
                     append_html reparse (auditTrail st) (resource_html now q docs (semantic_of d))\<rparr>))"
  by (simp add: updateAuditTrail_def graph_context_of_def semantic_of_def Let_def
      split: sum.splits)

lemma on_data_error:
  "truthy (error d) \<Longrightarrow> on_data reparse now q d st = (Throw (the (error d)), st)"
  by (simp add: on_data_def)

text \<open>
  What the handler of the body does when the body carries no error: it throws before
  anything is shown when the references throw; otherwise it shows the answer, fills the
  query panel and writes the audit entry, or throws in place of that last step.
\<close>

lemma on_data_result:
  assumes "\<not> truthy (error d)"
  shows "fst (on_data reparse now q d st) =
           (case add_references d of
              Inl message \<Rightarrow> Throw message
            | Inr r \<Rightarrow>
                (case audit_docs (graph_context_of d) of
                   Inl message \<Rightarrow> Throw message
                 | Inr docs \<Rightarrow> Normal))"
    and "chatHistory (snd (on_data reparse now q d st)) =
           (case add_references d of
              Inl message \<Rightarrow> chatHistory st
            | Inr r \<Rightarrow> append_html reparse (chatHistory st) (bot_html (fst r) (snd r)))"
    and "auditTrail (snd (on_data reparse now q d st)) =
           (case add_references d of
              Inl message \<Rightarrow> auditTrail st
            | Inr r \<Rightarrow>
                (case audit_docs (graph_context_of d) of
                   Inl message \<Rightarrow> auditTrail st
                 | Inr docs \<Rightarrow>
                     append_html reparse (auditTrail st)
                       (resource_html now q docs (semantic_of d))))"
    and "cypherQueries (snd (on_data reparse now q d st)) =
           (case add_references d of
              Inl message \<Rightarrow> cypherQueries st
            | Inr r \<Rightarrow> cypherQueries (displayQueries d st))"
    and "requests (snd (on_data reparse now q d st)) = requests st"
  using assms displayQueries_frame
  by (auto simp: on_data_def Let_def updateAuditTrail_result displayQueries_def
      split: sum.splits prod.splits option.splits)

lemma submitQuery_blank:
  "trim (queryInput st) = [] \<Longrightarrow> submitQuery reparse now outcome st = st"
  by (simp add: submitQuery_def)

lemma submitQuery_rejected:
  assumes "trim (queryInput st) = q" and "q \<noteq> []" and "parse_response outcome = Inl message"
  shows "shows_error_only reparse now q message st (submitQuery reparse now outcome st)"
  using assms by (simp add: submitQuery_def sent_def on_error_def shows_error_only_def)

lemma submitQuery_error_body:
  assumes "trim (queryInput st) = q" and "q \<noteq> []" and "parse_response outcome = Inr d"
    and "truthy (error d)"
  shows "shows_error_only reparse now q (the (error d)) st (submitQuery reparse now outcome st)"
  using assms
  by (simp add: submitQuery_def sent_def on_error_def shows_error_only_def on_data_error)

lemma trim_hi: "trim ''hi'' = ''hi''"
  by (simp add: trim_def is_ws_def)

lemma trim_spaces: "trim ''   '' = []"
  by (simp add: trim_def is_ws_def)

lemma submitQuery_body:
  assumes "trim (queryInput st) = q" and "q \<noteq> []" and "parse_response outcome = Inr d"
  shows "submitQuery reparse now outcome st =
           (case fst (on_data reparse now q d (sent reparse st q)) of
              Throw message \<Rightarrow>
                on_error reparse now q message (snd (on_data reparse now q d (sent reparse st q)))
            | Normal \<Rightarrow> snd (on_data reparse now q d (sent reparse st q)))"
  using assms by (simp add: submitQuery_def split: prod.splits completion.splits)

text \<open>
  A graph context that is \<open>false\<close> or zero passes the test of the response handler, and
  the answer is shown; \<open>updateAuditTrail\<close> then throws on it, and the \<open>catch\<close> handler
  shows an error for the same query.
\<close>

lemma answer_and_error_on_false_context:
  assumes "trim (queryInput st) = q" and "q \<noteq> []" and "parse_response outcome = Inr d"
    and "\<not> truthy (error d)"
    and "graph_context_of d = Some JFalse \<or> graph_context_of d = Some JZero"
  shows "chatHistory (submitQuery reparse now outcome st) =
           append_html reparse
             (append_html reparse (append_html reparse (chatHistory st) (user_html q))
                (bot_html (response d) []))
             (error_html match_not_a_function)"
    and "auditTrail (submitQuery reparse now outcome st) =
           append_html reparse (auditTrail st) (error_entry_html now q match_not_a_function)"
proof -
  from assms(5) have a: "add_references d = Inr (response d, [])"
    and m: "audit_docs (graph_context_of d) = Inl match_not_a_function"
    by (auto simp: add_references_def)
  note r = on_data_result [OF assms(4), of reparse now q "sent reparse st q"]
  from r(1) a m have t: "fst (on_data reparse now q d (sent reparse st q)) = Throw match_not_a_function"
    by simp
  have s: "submitQuery reparse now outcome st =
      on_error reparse now q match_not_a_function (snd (on_data reparse now q d (sent reparse st q)))"
    by (simp add: submitQuery_body [OF assms(1,2,3)] t)
  have c: "chatHistory (sent reparse st q) = append_html reparse (chatHistory st) (user_html q)"
    and u: "auditTrail (sent reparse st q) = auditTrail st"
    by (simp_all add: sent_def)
  from r(2) a c show "chatHistory (submitQuery reparse now outcome st) =
           append_html reparse
             (append_html reparse (append_html reparse (chatHistory st) (user_html q))
                (bot_html (response d) []))
             (error_html match_not_a_function)"
    by (simp add: s on_error_def)
  from r(3) a m u show "auditTrail (submitQuery reparse now outcome st) =
           append_html reparse (auditTrail st) (error_entry_html now q match_not_a_function)"
    by (simp add: s on_error_def)
qed

lemma false_context_shows_answer_and_error:
  "chatHistory (submitQuery keeps_markup ''10:00:00'' (Response 200 (JsonData false_context_body))
      (blank_page\<lparr>queryInput := ''hi''\<rparr>))
     = user_html ''hi'' @ bot_html (Some ''fine'') [] @ error_html match_not_a_function
   \<and> auditTrail (submitQuery keeps_markup ''10:00:00'' (Response 200 (JsonData false_context_body))
      (blank_page\<lparr>queryInput := ''hi''\<rparr>))
     = error_entry_html ''10:00:00'' ''hi'' match_not_a_function"
  by code_simp

section \<open>Properties of the query handling\<close>

text \<open>
  Claim C1. Every marker the handler puts into the answer, and every line of the
  reference list, belongs to a document of the graph context of the same body. A line
  of the list is \<open>k. title\<close> for a title found in a \<open>Found in:\<close> line of the graph
  context. A marker \<open>[k]\<close> that occurs in the processed text either occurred in the
  response text already (the handler did not put it there) or has its line \<open>k. title\<close>
  in the reference list, for such a title. No number stands for two documents.
\<close>

theorem citations_refer_to_context_documents:
  assumes "response d = Some r" and "add_references d = Inr (Some out, refs)"
  shows "(\<forall>ref \<in> set refs. \<exists>k doc g. ref = reference k doc
            \<and> graph_context_of d = Some (JString g) \<and> doc \<in> set (context_titles g))
       \<and> (\<forall>k. includes_str out (marker k) \<longrightarrow>
            includes_str r (marker k)
            \<or> (\<exists>doc g. graph_context_of d = Some (JString g) \<and> doc \<in> set (context_titles g)
                  \<and> reference k doc \<in> set refs))
       \<and> (\<forall>k doc doc'. reference k doc \<in> set refs \<and> reference k doc' \<in> set refs
            \<longrightarrow> doc = doc')"
proof -
  let ?docs = "docs_of d"
  from add_references_Inr(3) [OF assms(2) assms(1)]
  have out: "out = fst (cite_loop ?docs 0 (r, []))"
    by simp
  from add_references_Inr(1) [OF assms(2)]
  have refs: "refs = snd (cite_loop ?docs 0 (r, []))"
    by (simp add: refs_of_loop)
  have in_refs: "\<exists>g. graph_context_of d = Some (JString g) \<and> ?docs ! j \<in> set (context_titles g)"
    if "j < length ?docs" for j
    using docs_of_in_context [of "?docs ! j" d] that by auto
  have listed: "set refs = {reference (Suc j) (?docs ! j) | j. j < length ?docs}"
    using set_cite_loop [of ?docs 0 r "[]"] refs by simp
  have "\<exists>k doc g. ref = reference k doc \<and> graph_context_of d = Some (JString g)
            \<and> doc \<in> set (context_titles g)" if "ref \<in> set refs" for ref
  proof -
    from that listed obtain j where j: "j < length ?docs" "ref = reference (Suc j) (?docs ! j)"
      by blast
    with in_refs [OF j(1)] show ?thesis by blast
  qed
  moreover have "includes_str r (marker k)
            \<or> (\<exists>doc g. graph_context_of d = Some (JString g) \<and> doc \<in> set (context_titles g)
                  \<and> reference k doc \<in> set refs)" if "includes_str out (marker k)" for k
  proof -
    from that out marker_in_cite_loop [of ?docs 0 r "[]" k]
    consider "includes_str r (marker k)" | "0 < k" "k \<le> length ?docs"
      by auto
    then show ?thesis
    proof cases
      case 1
      then show ?thesis by simp
    next
      case 2
      then obtain j where j: "k = Suc j" "j < length ?docs" by (cases k) auto
      with listed have "reference k (?docs ! j) \<in> set refs" by blast
      with in_refs [OF j(2)] show ?thesis by blast
    qed
  qed
  moreover have "doc = doc'" if "reference k doc \<in> set refs" "reference k doc' \<in> set refs"
    for k doc doc'
  proof -
    from that listed obtain i j
      where "reference k doc = reference (Suc i) (?docs ! i)"
        and "reference k doc' = reference (Suc j) (?docs ! j)"
      by blast
    then have "k = Suc i" "doc = ?docs ! i" "k = Suc j" "doc' = ?docs ! j"
      by (auto dest: reference_inj)
    then show ?thesis by simp
  qed
  ultimately show ?thesis by blast
qed

theorem citations_refer_to_context_documents_witness:
  "\<exists>doc g. graph_context_of example_body = Some (JString g) \<and> doc \<in> set (context_titles g)
       \<and> reference 1 doc \<in> set [''1. a.txt'']"
proof -
  have r: "response example_body = Some ''see a.txt''"
    by (simp add: example_body_def)
  from citations_refer_to_context_documents [OF r example_body_references] example_body_marker
  show ?thesis by blast
qed

text \<open>
  Claim C2 fails on the code where one title lies inside another. With the documents
  \<open>schedule.txt\<close> and \<open>mobile_schedule.txt\<close>, in this order, the answer
  \<open>See mobile_schedule.txt\<close> mentions the second title; the loop replaces the first
  title inside it, and the mention of the second never becomes \<open>[2]\<close>.
\<close>

theorem overlapping_title_not_replaced:
  "includes_str ''See mobile_schedule.txt'' ''mobile_schedule.txt''
   \<and> add_references overlap_body
       = Inr (Some ''See mobile_[1]'', [''1. schedule.txt'', ''2. mobile_schedule.txt''])"
  by code_simp

text \<open>
  Claim C3, as amended. Whenever the handler produces an answer, the reference list has
  one line \<open>k. title\<close> for every distinct document title of the graph context, numbered
  from 1 on in the order in which the titles first occur there, whether or not the
  answer mentions the title: a document of the context that the answer does not mention
  still has a marker index and a line in the list. What depends on the mentions is the
  text alone: the step of a document leaves the text as it is when the title does not
  occur in the text as it stands at that step, and when no title of the context occurs
  in the response the answer is shown unchanged.
\<close>

theorem every_context_document_is_listed:
  assumes "add_references d = Inr (t, refs)"
  shows "refs = map (\<lambda>j. reference (Suc j) (docs_of d ! j)) [0 ..< length (docs_of d)]
       \<and> (\<forall>g. graph_context_of d = Some (JString g) \<and> g \<noteq> [] \<longrightarrow>
             docs_of d = context_docs g \<and> distinct (context_docs g)
             \<and> set (context_docs g) = set (context_titles g)
             \<and> sorted_wrt (<) (map (indexOf (context_titles g)) (context_docs g)))
       \<and> (\<forall>acc doc index. \<not> includes_str (fst acc) doc \<longrightarrow>
             fst (cite_step acc doc index) = fst acc)
       \<and> (\<forall>r. response d = Some r \<and> (\<forall>doc \<in> set (docs_of d). \<not> includes_str r doc) \<longrightarrow>
             t = Some r)"
proof -
  have "docs_of d = context_docs g \<and> distinct (context_docs g)
        \<and> set (context_docs g) = set (context_titles g)
        \<and> sorted_wrt (<) (map (indexOf (context_titles g)) (context_docs g))"
    if "graph_context_of d = Some (JString g)" "g \<noteq> []" for g
    using that
    by (simp add: docs_of_def context_docs_def distinct_first_occurrences
        set_first_occurrences first_occurrences_order)
  moreover have "fst (cite_step acc doc index) = fst acc" if "\<not> includes_str (fst acc) doc"
    for acc :: "string \<times> string list" and doc index
    using that by (simp add: cite_step_def replace_all_absent)
  moreover have "t = Some r"
    if "response d = Some r" "\<forall>doc \<in> set (docs_of d). \<not> includes_str r doc" for r
    using add_references_Inr(3) [OF assms that(1)] fst_cite_loop_absent [OF that(2), of 0 "[]"]
    by simp
  ultimately show ?thesis
    using add_references_Inr(1) [OF assms] by blast
qed

theorem every_context_document_is_listed_witness:
  "add_references unused_body = Inr (Some ''Hello'', [reference 1 ''a.txt''])"
proof -
  have a: "add_references unused_body = Inr (Some ''Hello'', [''1. a.txt''])"
    by code_simp
  have g: "graph_context_of unused_body = Some (JString ''Found in: a.txt'')"
    and n: "''Found in: a.txt'' \<noteq> []"
    by (simp_all add: unused_body_def graph_context_of_def queries_of_def)
  from every_context_document_is_listed [OF a] g n
  have "docs_of unused_body = context_docs ''Found in: a.txt''"
    and "[''1. a.txt''] = map (\<lambda>j. reference (Suc j) (docs_of unused_body ! j))
                            [0 ..< length (docs_of unused_body)]"
    by blast+
  with a show ?thesis by (simp add: context_docs_example)
qed

text \<open>
  Claim C3 as stated gives a document that the answer does not use no marker index and
  no citation entry. The answer \<open>Hello\<close> does not mention \<open>a.txt\<close>, the only document
  of the context, and the reference list is \<open>1. a.txt\<close>.
\<close>

theorem unused_document_is_listed:
  "\<not> includes_str ''Hello'' ''a.txt''
   \<and> add_references unused_body = Inr (Some ''Hello'', [''1. a.txt''])"
  by code_simp

text \<open>
  Claim C4. Citation substitution is deterministic. The answer text with its markers and
  the reference list are computed from the response text and the graph context of the
  body alone: two bodies that agree on both give the same result, whatever else they
  hold, and the handler writes the same markup to the chat and ends the same way
  (completes, or throws the same error) whatever the page showed before, whatever the
  time and whatever the query text.
\<close>

theorem citation_substitution_deterministic:
  assumes "response d1 = response d2" and "graph_context_of d1 = graph_context_of d2"
    and "\<not> truthy (error d1)" and "\<not> truthy (error d2)"
  shows "add_references d1 = add_references d2
       \<and> fst (on_data reparse now1 q1 d1 st1) = fst (on_data reparse now2 q2 d2 st2)
       \<and> (\<exists>written.
             chatHistory (snd (on_data reparse now1 q1 d1 st1))
               = foldl (append_html reparse) (chatHistory st1) written
             \<and> chatHistory (snd (on_data reparse now2 q2 d2 st2))
               = foldl (append_html reparse) (chatHistory st2) written)"
proof -
  have eq: "add_references d1 = add_references d2"
    unfolding add_references_def assms(1) assms(2) by (rule refl)
  let ?written = "case add_references d2 of Inl message \<Rightarrow> [] | Inr r \<Rightarrow> [bot_html (fst r) (snd r)]"
  have "chatHistory (snd (on_data reparse now1 q1 d1 st1))
          = foldl (append_html reparse) (chatHistory st1) ?written"
    using on_data_result(2) [OF assms(3), of reparse now1 q1 st1] eq
    by (simp split: sum.splits)
  moreover have "chatHistory (snd (on_data reparse now2 q2 d2 st2))
          = foldl (append_html reparse) (chatHistory st2) ?written"
    using on_data_result(2) [OF assms(4), of reparse now2 q2 st2]
    by (simp split: sum.splits)
  moreover have "fst (on_data reparse now1 q1 d1 st1) = fst (on_data reparse now2 q2 d2 st2)"
    using on_data_result(1) [OF assms(3), of reparse now1 q1 st1]
      on_data_result(1) [OF assms(4), of reparse now2 q2 st2] eq assms(2)
    by (simp split: sum.splits)
  ultimately show ?thesis using eq by blast
qed

theorem citation_substitution_deterministic_witness:
  "add_references example_body = add_references (example_body\<lparr>error := Some []\<rparr>)
   \<and> (\<exists>written.
         chatHistory (snd (on_data keeps_markup ''10:00:00'' ''first'' example_body blank_page))
           = foldl (append_html keeps_markup) (chatHistory blank_page) written
         \<and> chatHistory (snd (on_data keeps_markup ''11:30:00'' ''second''
               (example_body\<lparr>error := Some []\<rparr>) (blank_page\<lparr>chatHistory := ''earlier''\<rparr>)))
           = foldl (append_html keeps_markup) (chatHistory (blank_page\<lparr>chatHistory := ''earlier''\<rparr>))
               written)"
  using citation_substitution_deterministic
    [of example_body "example_body\<lparr>error := Some []\<rparr>" keeps_markup
        "''10:00:00''" "''first''" blank_page "''11:30:00''" "''second''"
        "blank_page\<lparr>chatHistory := ''earlier''\<rparr>"]
  by (simp add: graph_context_of_def queries_of_def example_body_def)

text \<open>
  Claim C5 fails on the code where the query text holds markup: the text goes into the
  template of the entry as it is, and the browser parses it with the rest. At a query
  that closes the two open elements and opens an entry of its own, the one write holds
  the markup of two entries, and it is parsed together with all that the trail held.
\<close>

theorem query_markup_in_audit_entry:
  \<open>auditTrail (submitQuery reparse now (Rejected message) (st\<lparr>queryInput := forged_entry_query\<rparr>))
     = reparse (auditTrail st @ error_entry_html now forged_entry_query message)
   \<and> includes_str (error_entry_html now forged_entry_query message)
         ''<div>Query: "</div></div><div class="audit-entry error mb-2"><div>"</div>''\<close>
proof -
  have t: "trim forged_entry_query = forged_entry_query"
    by (simp add: trim_def forged_entry_query_def is_ws_def)
  have n: "forged_entry_query \<noteq> []"
    by (simp add: forged_entry_query_def)
  have "auditTrail (submitQuery reparse now (Rejected message) (st\<lparr>queryInput := forged_entry_query\<rparr>))
     = reparse (auditTrail st @ error_entry_html now forged_entry_query message)"
    using t n
    by (simp add: submitQuery_def parse_response_def on_error_def sent_def append_html_def)
  moreover have \<open>error_entry_html now forged_entry_query message
      = (''\<newline>                <div class="audit-entry error mb-2">\<newline>                    <small class="text-muted">'' @ now @ ''</small>\<newline>                    '')
        @ ''<div>Query: "</div></div><div class="audit-entry error mb-2"><div>"</div>''
        @ (''\<newline>                    <div>Error: '' @ message @ ''</div>\<newline>                </div>\<newline>            '')\<close>
    by (simp add: error_entry_html_def forged_entry_query_def)
  then have \<open>includes_str (error_entry_html now forged_entry_query message)
         ''<div>Query: "</div></div><div class="audit-entry error mb-2"><div>"</div>''\<close>
    unfolding includes_iff by blast
  ultimately show ?thesis by blast
qed

text \<open>
  Claim C6 fails on the code for the same reason: every write reads the markup of all
  earlier entries and has the browser parse it again, with the query texts in it as
  they were typed. After the query \<open><plaintext>\<close> the entry of the next query is parsed
  behind that text, inside the markup of the first entry.
\<close>

theorem earlier_entries_parsed_again:
  \<open>auditTrail
      (submitQuery reparse now2 (Rejected message2)
        ((submitQuery reparse now1 (Rejected message1) (st\<lparr>queryInput := ''<plaintext>''\<rparr>))
           \<lparr>queryInput := ''hi''\<rparr>))
     = reparse (reparse (auditTrail st @ error_entry_html now1 ''<plaintext>'' message1)
                @ error_entry_html now2 ''hi'' message2)
   \<and> includes_str (error_entry_html now1 ''<plaintext>'' message1)
         ''<div>Query: "<plaintext>"</div>''\<close>
proof -
  have t: "trim ''<plaintext>'' = ''<plaintext>''"
    by (simp add: trim_def is_ws_def)
  have "auditTrail
      (submitQuery reparse now2 (Rejected message2)
        ((submitQuery reparse now1 (Rejected message1) (st\<lparr>queryInput := ''<plaintext>''\<rparr>))
           \<lparr>queryInput := ''hi''\<rparr>))
     = reparse (reparse (auditTrail st @ error_entry_html now1 ''<plaintext>'' message1)
                @ error_entry_html now2 ''hi'' message2)"
    using t trim_hi
    by (simp add: submitQuery_def parse_response_def on_error_def sent_def append_html_def Let_def)
  moreover have \<open>error_entry_html now1 ''<plaintext>'' message1
      = (''\<newline>                <div class="audit-entry error mb-2">\<newline>                    <small class="text-muted">'' @ now1 @ ''</small>\<newline>                    '')
        @ ''<div>Query: "<plaintext>"</div>''
        @ (''\<newline>                    <div>Error: '' @ message1 @ ''</div>\<newline>                </div>\<newline>            '')\<close>
    by (simp add: error_entry_html_def)
  then have \<open>includes_str (error_entry_html now1 ''<plaintext>'' message1)
         ''<div>Query: "<plaintext>"</div>''\<close>
    unfolding includes_iff by blast
  ultimately show ?thesis by blast
qed

text \<open>
  Claim C7, as amended. A question that is empty or blank after trimming has no effect
  at all: \<open>submitQuery\<close> returns at once, nothing is sent, and the page (input field,
  chat, query panel, audit trail) stays as it was. No error and no prompt is shown.
\<close>

theorem blank_question_has_no_effect:
  "trim (queryInput st) = [] \<Longrightarrow> submitQuery reparse now outcome st = st"
  by (simp add: submitQuery_def)

theorem blank_question_has_no_effect_witness:
  "trim (queryInput (blank_page\<lparr>queryInput := ''   ''\<rparr>)) = []
   \<and> submitQuery keeps_markup ''10:00:00'' (Rejected ''Failed to fetch'')
         (blank_page\<lparr>queryInput := ''   ''\<rparr>)
       = blank_page\<lparr>queryInput := ''   ''\<rparr>"
  using blank_question_has_no_effect
    [of "blank_page\<lparr>queryInput := ''   ''\<rparr>" keeps_markup "''10:00:00''" "Rejected ''Failed to fetch''"]
  by (simp add: trim_spaces)

text \<open>
  Claim C7 as stated asks for an \<open>EmptyQuestion\<close> failure and a prompt. On a fresh page
  with three spaces in the input field the chat and the audit trail stay empty and the
  input keeps its three spaces: nothing is reported.
\<close>

theorem blank_question_not_reported:
  "chatHistory (submitQuery keeps_markup ''10:00:00'' (Rejected ''Failed to fetch'')
      (blank_page\<lparr>queryInput := ''   ''\<rparr>)) = []
   \<and> auditTrail (submitQuery keeps_markup ''10:00:00'' (Rejected ''Failed to fetch'')
      (blank_page\<lparr>queryInput := ''   ''\<rparr>)) = []
   \<and> queryInput (submitQuery keeps_markup ''10:00:00'' (Rejected ''Failed to fetch'')
      (blank_page\<lparr>queryInput := ''   ''\<rparr>)) = ''   ''"
  by (simp add: submitQuery_def trim_spaces blank_page_def)

text \<open>
  Claim C8, as amended. A request that fails, and a body that carries an error that is
  a string and not empty, end with that one error: behind the user's message the chat
  gets the error message and nothing else, the audit entry holds the query and the
  message only, and the query panel is not touched. A body without such an error whose
  response is a text, and whose graph context is not \<open>false\<close> and not zero, ends either
  with the answer (the processed response text, its references and a resource entry) or,
  when its graph context is another value that is not a string, with one error in the
  same way; never with both. What is shown for a body without a response text, and for
  a graph context that is \<open>false\<close> or zero, is left out here.
\<close>

theorem answer_or_single_error:
  assumes "trim (queryInput st) = q" and "q \<noteq> []"
  shows "(\<forall>message. parse_response outcome = Inl message \<longrightarrow>
            shows_error_only reparse now q message st (submitQuery reparse now outcome st))
       \<and> (\<forall>d. parse_response outcome = Inr d \<and> truthy (error d) \<longrightarrow>
            shows_error_only reparse now q (the (error d)) st (submitQuery reparse now outcome st))
       \<and> (\<forall>d r. parse_response outcome = Inr d \<and> \<not> truthy (error d) \<and> response d = Some r
              \<and> graph_context_of d \<noteq> Some JFalse \<and> graph_context_of d \<noteq> Some JZero \<longrightarrow>
            (\<exists>out refs docs. add_references d = Inr (Some out, refs)
                \<and> audit_docs (graph_context_of d) = Inr docs
                \<and> shows_answer_only reparse now q (Some out) refs docs (semantic_of d) st
                      (submitQuery reparse now outcome st))
            \<or> ((\<exists>text. graph_context_of d = Some (JTruthy text))
                \<and> shows_error_only reparse now q split_not_a_function st
                      (submitQuery reparse now outcome st)))"
proof -
  have "(\<exists>out refs docs. add_references d = Inr (Some out, refs)
                \<and> audit_docs (graph_context_of d) = Inr docs
                \<and> shows_answer_only reparse now q (Some out) refs docs (semantic_of d) st
                      (submitQuery reparse now outcome st))
            \<or> ((\<exists>text. graph_context_of d = Some (JTruthy text))
                \<and> shows_error_only reparse now q split_not_a_function st
                      (submitQuery reparse now outcome st))"
    if d: "parse_response outcome = Inr d" and e: "\<not> truthy (error d)" and r: "response d = Some r"
      and f: "graph_context_of d \<noteq> Some JFalse" and z: "graph_context_of d \<noteq> Some JZero"
    for d r
  proof (cases "\<exists>text. graph_context_of d = Some (JTruthy text)")
    case True
    then obtain other where "graph_context_of d = Some (JTruthy other)" by blast
    then have a: "add_references d = Inl split_not_a_function"
      by (rule add_references_not_a_string)
    note res = on_data_result [OF e, of reparse now q "sent reparse st q"]
    from res(1) a have t: "fst (on_data reparse now q d (sent reparse st q)) = Throw split_not_a_function"
      by simp
    have s: "submitQuery reparse now outcome st =
        on_error reparse now q split_not_a_function (snd (on_data reparse now q d (sent reparse st q)))"
      by (simp add: submitQuery_body [OF assms d] t)
    from res(2,3,4,5) a
    have "shows_error_only reparse now q split_not_a_function st (submitQuery reparse now outcome st)"
      unfolding s shows_error_only_def by (simp add: on_error_def sent_def)
    with True show ?thesis by blast
  next
    case False
    with f z have tx: "textual (graph_context_of d)"
      by (cases "graph_context_of d" rule: truthy_value.cases) auto
    from False have nt: "\<forall>text. graph_context_of d \<noteq> Some (JTruthy text)" by blast
    from add_references_Some [OF r nt] obtain out refs
      where a: "add_references d = Inr (Some out, refs)" by blast
    from audit_docs_textual [OF tx] obtain docs
      where m: "audit_docs (graph_context_of d) = Inr docs" by blast
    note res = on_data_result [OF e, of reparse now q "sent reparse st q"]
    from res(1) a m have t: "fst (on_data reparse now q d (sent reparse st q)) = Normal"
      by simp
    have s: "submitQuery reparse now outcome st = snd (on_data reparse now q d (sent reparse st q))"
      by (simp add: submitQuery_body [OF assms d] t)
    from res(2,3,4,5) a m
    have "shows_answer_only reparse now q (Some out) refs docs (semantic_of d) st
            (submitQuery reparse now outcome st)"
      unfolding s shows_answer_only_def by (simp add: sent_def)
    with a m show ?thesis by blast
  qed
  then show ?thesis
    using submitQuery_rejected [OF assms] submitQuery_error_body [OF assms] by blast
qed

theorem answer_or_single_error_witness:
  "shows_error_only keeps_markup ''10:00:00'' ''hi'' ''boom'' (blank_page\<lparr>queryInput := ''hi''\<rparr>)
     (submitQuery keeps_markup ''10:00:00''
        (Response 200 (JsonData (empty_error_body\<lparr>error := Some ''boom''\<rparr>)))
        (blank_page\<lparr>queryInput := ''hi''\<rparr>))
   \<and> shows_error_only keeps_markup ''10:00:00'' ''hi'' ''Failed to fetch''
       (blank_page\<lparr>queryInput := ''hi''\<rparr>)
       (submitQuery keeps_markup ''10:00:00'' (Rejected ''Failed to fetch'')
          (blank_page\<lparr>queryInput := ''hi''\<rparr>))
   \<and> shows_answer_only keeps_markup ''10:00:00'' ''hi'' (Some ''see [1]'') [''1. a.txt''] [] None
       (blank_page\<lparr>queryInput := ''hi''\<rparr>)
       (submitQuery keeps_markup ''10:00:00'' (Response 200 (JsonData example_body))
          (blank_page\<lparr>queryInput := ''hi''\<rparr>))"
proof -
  have q: "trim (queryInput (blank_page\<lparr>queryInput := ''hi''\<rparr>)) = ''hi''" "''hi'' \<noteq> []"
    by (simp_all add: trim_hi)
  have 1: "parse_response (Response 200 (JsonData (empty_error_body\<lparr>error := Some ''boom''\<rparr>)))
             = Inr (empty_error_body\<lparr>error := Some ''boom''\<rparr>)
           \<and> truthy (error (empty_error_body\<lparr>error := Some ''boom''\<rparr>))"
    by (simp add: parse_response_def response_ok_def)
  have 2: "parse_response (Rejected ''Failed to fetch'') = Inl ''Failed to fetch''"
    by (simp add: parse_response_def response_ok_def)
  have 3: "parse_response (Response 200 (JsonData example_body)) = Inr example_body
      \<and> \<not> truthy (error example_body) \<and> response example_body = Some ''see a.txt''
      \<and> graph_context_of example_body \<noteq> Some JFalse
      \<and> graph_context_of example_body \<noteq> Some JZero"
    by (simp add: parse_response_def response_ok_def example_body_def graph_context_of_def
        queries_of_def)
  have g: "graph_context_of example_body = Some (JString ''Found in: a.txt'')"
    "semantic_of example_body = None"
    by (simp_all add: example_body_def graph_context_of_def queries_of_def semantic_of_def)
  have m: "matched_docs ''Found in: a.txt'' = []"
    by code_simp
  have "shows_error_only keeps_markup ''10:00:00'' ''hi'' ''boom'' (blank_page\<lparr>queryInput := ''hi''\<rparr>)
     (submitQuery keeps_markup ''10:00:00''
        (Response 200 (JsonData (empty_error_body\<lparr>error := Some ''boom''\<rparr>)))
        (blank_page\<lparr>queryInput := ''hi''\<rparr>))"
    using answer_or_single_error [OF q, THEN conjunct2, THEN conjunct1, rule_format, OF 1,
        of keeps_markup "''10:00:00''"]
    by simp
  moreover have "shows_error_only keeps_markup ''10:00:00'' ''hi'' ''Failed to fetch''
       (blank_page\<lparr>queryInput := ''hi''\<rparr>)
       (submitQuery keeps_markup ''10:00:00'' (Rejected ''Failed to fetch'')
          (blank_page\<lparr>queryInput := ''hi''\<rparr>))"
    by (rule answer_or_single_error [OF q, THEN conjunct1, rule_format, OF 2])
  moreover have "shows_answer_only keeps_markup ''10:00:00'' ''hi'' (Some ''see [1]'') [''1. a.txt''] [] None
       (blank_page\<lparr>queryInput := ''hi''\<rparr>)
       (submitQuery keeps_markup ''10:00:00'' (Response 200 (JsonData example_body))
          (blank_page\<lparr>queryInput := ''hi''\<rparr>))"
    using answer_or_single_error [OF q, THEN conjunct2, THEN conjunct2, rule_format, OF 3,
        of keeps_markup "''10:00:00''"]
    by (auto simp: example_body_references g m)
  ultimately show ?thesis by blast
qed

text \<open>
  Claim C8 as stated has only the error shown whenever the response carries an error
  field. A body whose error is the empty string carries one, and the answer is shown for
  it, with a resource entry and no error.
\<close>

theorem empty_error_shows_answer:
  "error empty_error_body = Some []
   \<and> chatHistory (submitQuery keeps_markup ''10:00:00'' (Response 200 (JsonData empty_error_body))
        (blank_page\<lparr>queryInput := ''hi''\<rparr>))
     = user_html ''hi'' @ bot_html (Some ''partial'') []
   \<and> auditTrail (submitQuery keeps_markup ''10:00:00'' (Response 200 (JsonData empty_error_body))
        (blank_page\<lparr>queryInput := ''hi''\<rparr>))
     = resource_html ''10:00:00'' ''hi'' [] None"
  by code_simp

text \<open>
  Claim C9. On an empty context the synthesizer's answer is the fixed text with no
  citations. When the body carries that answer's text as its response and its graph
  context yields no document (it is absent, empty, or a text with no \<open>Found in:\<close>
  line), the handler shows exactly the fixed text: no marker is put into it and the
  message has no reference list.
\<close>

theorem insufficient_information_without_citations:
  assumes "synthesize insufficient generate question [] = Inr a"
    and "\<not> truthy (error d)" and "docs_of d = []" and "textual (graph_context_of d)"
    and "response d = Some (answer_text a)"
  shows "answer_text a = insufficient \<and> citations a = []
       \<and> add_references d = Inr (Some insufficient, [])
       \<and> fst (on_data reparse now q d st) = Normal
       \<and> chatHistory (snd (on_data reparse now q d st))
           = append_html reparse (chatHistory st) (bot_html (Some insufficient) [])
       \<and> references_html [] = []"
proof -
  from assms(1) have a: "a = \<lparr>answer_text = insufficient, citations = []\<rparr>"
    by (simp add: synthesize_def)
  with assms(5) have r: "response d = Some insufficient"
    by simp
  from assms(4) have nt: "\<forall>other. graph_context_of d \<noteq> Some (JTruthy other)"
    by (cases "graph_context_of d" rule: textual.cases) simp_all
  from add_references_Some [OF r nt] assms(3)
  have s: "add_references d = Inr (Some insufficient, [])" by simp
  from audit_docs_textual [OF assms(4)] obtain docs
    where m: "audit_docs (graph_context_of d) = Inr docs" by blast
  from on_data_result [OF assms(2), of reparse now q st] a s m show ?thesis
    by (simp add: references_html_def)
qed

theorem insufficient_information_without_citations_witness:
  "add_references no_evidence_body = Inr (Some ''Not enough information.'', [])
   \<and> chatHistory (snd (on_data keeps_markup ''10:00:00'' ''Who won?'' no_evidence_body blank_page))
       = bot_html (Some ''Not enough information.'') []"
proof -
  have s: "synthesize ''Not enough information.'' (\<lambda>question context. Inl SynthesisUnavailable)
             ''Who won?'' ([] :: string list)
           = Inr \<lparr>answer_text = ''Not enough information.'', citations = []\<rparr>"
    by (simp add: synthesize_def)
  have "\<not> truthy (error no_evidence_body)" and "docs_of no_evidence_body = []"
    and "textual (graph_context_of no_evidence_body)"
    and "response no_evidence_body
           = Some (answer_text \<lparr>answer_text = ''Not enough information.'', citations = []\<rparr>)"
    by (simp_all add: no_evidence_body_def docs_of_def graph_context_of_def queries_of_def)
  from insufficient_information_without_citations
    [OF s this, of keeps_markup "''10:00:00''" "''Who won?''" blank_page]
  show ?thesis by (simp add: blank_page_def append_html_def keeps_markup_def)
qed

text \<open>
  Claim C10, as amended. The resource entry that \<open>updateAuditTrail\<close> writes lists the
  matches of \<open>- name.txt\<close> in the graph context, each without its leading \<open>- \<close>; the list
  is empty when there is no graph context. A text is listed exactly when it stands in
  the graph context right behind \<open>- \<close>, is \<open>name.txt\<close> for a name that is not empty and
  has no hyphen and no line feed, and is the longest such text that starts there. A
  title with a hyphen, or one that does not end in \<open>.txt\<close>, is never listed.
\<close>

theorem audit_documents_follow_pattern:
  assumes "audit_docs (graph_context_of d) = Inr docs"
  shows "updateAuditTrail reparse now query d st
           = (Normal, st\<lparr>auditTrail := append_html reparse (auditTrail st)
                                          (resource_html now query docs (semantic_of d))\<rparr>)
       \<and> (graph_context_of d = None \<longrightarrow> docs = [])
       \<and> (\<forall>g doc. graph_context_of d = Some (JString g) \<longrightarrow>
             (doc \<in> set docs \<longleftrightarrow>
                (\<exists>p q. g = p @ ''- '' @ doc @ q \<and> is_doc doc
                   \<and> (\<forall>doc'. is_doc doc' \<and> prefix doc' (doc @ q) \<longrightarrow> length doc' \<le> length doc))))
       \<and> (\<forall>title. CHR ''-'' \<in> set title \<or> \<not> suffix ''.txt'' title \<longrightarrow> title \<notin> set docs)"
proof -
  from audit_docs_Inr [OF assms] have tx: "textual (graph_context_of d)" .
  from audit_docs_textual [OF tx] assms
  have docs: "docs = (case graph_context_of d of Some (JString g) \<Rightarrow> matched_docs g | _ \<Rightarrow> [])"
    by simp
  have 1: "updateAuditTrail reparse now query d st
           = (Normal, st\<lparr>auditTrail := append_html reparse (auditTrail st)
                                          (resource_html now query docs (semantic_of d))\<rparr>)"
    by (simp add: updateAuditTrail_result assms)
  have 2: "graph_context_of d = None \<longrightarrow> docs = []"
    by (simp add: docs)
  have 3: "doc \<in> set docs \<longleftrightarrow>
                (\<exists>p q. g = p @ ''- '' @ doc @ q \<and> is_doc doc
                   \<and> (\<forall>doc'. is_doc doc' \<and> prefix doc' (doc @ q) \<longrightarrow> length doc' \<le> length doc))"
    if "graph_context_of d = Some (JString g)" for g doc
    using that matched_docs_iff [of doc g] by (simp add: docs)
  have 4: "title \<notin> set docs" if "CHR ''-'' \<in> set title \<or> \<not> suffix ''.txt'' title" for title
  proof (cases "graph_context_of d" rule: textual.cases)
    case (2 g)
    with matched_docs_titles [OF that, of g] show ?thesis by (simp add: docs)
  qed (simp_all add: docs)
  from 1 2 3 4 show ?thesis by blast
qed

theorem audit_documents_follow_pattern_witness:
  "audit_docs (graph_context_of listing_body) = Inr [''a.txt'']
   \<and> auditTrail (snd (updateAuditTrail keeps_markup ''10:00:00'' ''hi'' listing_body blank_page))
       = resource_html ''10:00:00'' ''hi'' [''a.txt''] None
   \<and> is_doc ''a.txt''
   \<and> ''my-notes.txt'' \<notin> set [''a.txt'']"
proof -
  have a: "audit_docs (graph_context_of listing_body) = Inr [''a.txt'']"
    by code_simp
  have g: "graph_context_of listing_body
             = Some (JString (''- a.txt'' @ [CHR 0x0A] @ ''- my-notes.txt''))"
    "semantic_of listing_body = None"
    by (simp_all add: listing_body_def graph_context_of_def queries_of_def semantic_of_def)
  note w = audit_documents_follow_pattern [OF a, of keeps_markup "''10:00:00''" "''hi''" blank_page]
  from w have "auditTrail (snd (updateAuditTrail keeps_markup ''10:00:00'' ''hi'' listing_body blank_page))
       = resource_html ''10:00:00'' ''hi'' [''a.txt''] None"
    by (simp add: g blank_page_def append_html_def keeps_markup_def)
  moreover have m: "''a.txt'' \<in> set [''a.txt'']" by simp
  from w [THEN conjunct2, THEN conjunct2, THEN conjunct1, rule_format, OF g(1), THEN iffD1, OF m]
  have "is_doc ''a.txt''" by blast
  moreover from w [THEN conjunct2, THEN conjunct2, THEN conjunct2, rule_format, of "''my-notes.txt''"]
  have "''my-notes.txt'' \<notin> set [''a.txt'']" by simp
  ultimately show ?thesis using a by blast
qed

text \<open>
  Claim C10 as stated lists exactly the titles of the pattern. In the graph context
  \<open>- a.txt, b.txt\<close> the title \<open>a.txt\<close> is of the pattern and stands behind \<open>- \<close>, yet the
  one entry of the list is \<open>a.txt, b.txt\<close>: the match runs on to the last \<open>.txt\<close> of the
  line.
\<close>

theorem longest_match_is_listed:
  "is_doc ''a.txt''
   \<and> includes_str ''- a.txt, b.txt'' (''- '' @ ''a.txt'')
   \<and> graph_context_of greedy_body = Some (JString ''- a.txt, b.txt'')
   \<and> audit_docs (graph_context_of greedy_body) = Inr [''a.txt, b.txt'']
   \<and> auditTrail (snd (updateAuditTrail keeps_markup ''10:00:00'' ''hi'' greedy_body blank_page))
       = resource_html ''10:00:00'' ''hi'' [''a.txt, b.txt''] None"
  by code_simp


end
